theory Spec2Isabelle
  imports Complex_Main "HOL-Library.Multiset"
begin

text \<open>
  A shallow embedding of the parts tracker of \<^verbatim>\<open>src/App.tsx\<close> (the revision with saved
  builds and price history): the price-history rule, the three derived values, the
  add-part form, the catalog handlers and the build persistence.

  The component keeps its state in React hooks, and every handler computes the next
  state from the state of the render that installed it. A handler is therefore a
  function from the state (and what it reads from the host: the clock, the JSON and
  collation routines) to the next state. No handler writes into an array or object it
  was given: each builds new ones with \<^verbatim>\<open>map\<close>, \<^verbatim>\<open>filter\<close> and spread, so values stand
  for the program's objects without a store of references.
\<close>

section \<open>Strings and numbers of the host language\<close>

text \<open>
  A string is its sequence of UTF-16 code units; \<open>str\<close> turns an ASCII literal into
  one, so that \<open>str ''$''\<close> is \<open>[36]\<close>.
\<close>

type_synonym jsstring = "nat list"

definition str :: "string \<Rightarrow> jsstring" where
  "str s = map of_char s"

text \<open>
  A Number is NaN, an infinity or a finite binary64 value, held as the rational it
  denotes. The two zeros are one value here: the code never divides by a price, and
  \<^verbatim>\<open>===\<close>, \<^verbatim>\<open><\<close>, \<^verbatim>\<open>+\<close> and \<^verbatim>\<open>toFixed\<close> do not tell them apart.

  \<open>round_double\<close> is round-to-nearest, ties to even, into binary64: the unit in the
  last place is \<open>2 ^ (e - 52)\<close> for the binary exponent \<open>e\<close> of the argument, not below
  \<open>- 1022\<close> (the subnormal range), and a result of \<open>2 ^ 1024\<close> or more is an infinity.
\<close>

datatype jsnum = NaN | NegInfinity | Fin rat | Infinity

definition pow2 :: "int \<Rightarrow> rat" where
  "pow2 e = (if 0 \<le> e then 2 ^ nat e else 1 / 2 ^ nat (- e))"

definition pow10 :: "int \<Rightarrow> rat" where
  "pow10 e = (if 0 \<le> e then 10 ^ nat e else 1 / 10 ^ nat (- e))"

fun bit_length :: "nat \<Rightarrow> nat" where
  "bit_length n = (if n = 0 then 0 else Suc (bit_length (n div 2)))"

declare bit_length.simps [simp del]

definition neg_log2 :: "rat \<Rightarrow> int \<Rightarrow> int" where
  "neg_log2 a f = (if a * 2 ^ nat f = 1 then - f else - f - 1)"

definition floor_log2 :: "rat \<Rightarrow> int" where
  "floor_log2 a =
     (if 1 \<le> a then int (bit_length (nat \<lfloor>a\<rfloor>)) - 1
      else neg_log2 a (int (bit_length (nat \<lfloor>1 / a\<rfloor>)) - 1))"

definition ties_even :: "rat \<Rightarrow> int \<Rightarrow> int" where
  "ties_even x f =
     (if x - of_int f < 1 / 2 then f
      else if 1 / 2 < x - of_int f then f + 1
      else if even f then f else f + 1)"

definition round_half_even :: "rat \<Rightarrow> int" where
  "round_half_even x = ties_even x \<lfloor>x\<rfloor>"

definition overflow_check :: "bool \<Rightarrow> rat \<Rightarrow> jsnum" where
  "overflow_check neg v =
     (if 2 ^ 1024 \<le> v then (if neg then NegInfinity else Infinity)
      else Fin (if neg then - v else v))"

definition round_scaled :: "bool \<Rightarrow> rat \<Rightarrow> rat \<Rightarrow> jsnum" where
  "round_scaled neg a u = overflow_check neg (of_int (round_half_even (a / u)) * u)"

definition round_double :: "rat \<Rightarrow> jsnum" where
  "round_double q =
     (if q = 0 then Fin 0
      else round_scaled (q < 0) \<bar>q\<bar> (pow2 (max (floor_log2 \<bar>q\<bar>) (- 1022) - 52)))"

text \<open>
  Addition, negation, subtraction, the comparison \<^verbatim>\<open><\<close>, \<^verbatim>\<open>isNaN\<close> and \<^verbatim>\<open>!==\<close> on
  Numbers.
\<close>

definition js_add :: "jsnum \<Rightarrow> jsnum \<Rightarrow> jsnum" where
  "js_add x y =
     (case x of
        NaN \<Rightarrow> NaN
      | Infinity \<Rightarrow> (case y of NaN \<Rightarrow> NaN | NegInfinity \<Rightarrow> NaN | _ \<Rightarrow> Infinity)
      | NegInfinity \<Rightarrow> (case y of NaN \<Rightarrow> NaN | Infinity \<Rightarrow> NaN | _ \<Rightarrow> NegInfinity)
      | Fin a \<Rightarrow> (case y of Fin b \<Rightarrow> round_double (a + b) | _ \<Rightarrow> y))"

definition js_neg :: "jsnum \<Rightarrow> jsnum" where
  "js_neg x = (case x of NaN \<Rightarrow> NaN | Infinity \<Rightarrow> NegInfinity | NegInfinity \<Rightarrow> Infinity
               | Fin a \<Rightarrow> Fin (- a))"

definition js_sub :: "jsnum \<Rightarrow> jsnum \<Rightarrow> jsnum" where
  "js_sub x y = js_add x (js_neg y)"

definition js_lt :: "jsnum \<Rightarrow> jsnum \<Rightarrow> bool" where
  "js_lt x y =
     (case x of
        NaN \<Rightarrow> False
      | NegInfinity \<Rightarrow> (case y of NaN \<Rightarrow> False | NegInfinity \<Rightarrow> False | _ \<Rightarrow> True)
      | Fin a \<Rightarrow> (case y of Fin b \<Rightarrow> a < b | Infinity \<Rightarrow> True | _ \<Rightarrow> False)
      | Infinity \<Rightarrow> False)"

definition isNaN :: "jsnum \<Rightarrow> bool" where
  "isNaN x = (x = NaN)"

definition strict_ne :: "jsnum \<Rightarrow> jsnum \<Rightarrow> bool" where
  "strict_ne x y = (x = NaN \<or> y = NaN \<or> x \<noteq> y)"

text \<open>
  \<^verbatim>\<open>Math.min(...prices)\<close>: the running minimum starts at \<open>Infinity\<close>, and the first NaN
  among the arguments makes the result NaN.
\<close>

fun min_loop :: "jsnum \<Rightarrow> jsnum list \<Rightarrow> jsnum" where
  "min_loop lowest [] = lowest"
| "min_loop lowest (x # xs) =
     (if x = NaN then NaN else min_loop (if js_lt x lowest then x else lowest) xs)"

definition Math_min :: "jsnum list \<Rightarrow> jsnum" where
  "Math_min xs = min_loop Infinity xs"

text \<open>
  White space is what \<^verbatim>\<open>trim\<close> and \<^verbatim>\<open>parseFloat\<close> skip: tab, line feed, vertical tab,
  form feed, carriage return, space, no-break space, the other space separators of
  Unicode, the line and paragraph separators and the byte order mark.
  \<^verbatim>\<open>price.replace('$', '')\<close> removes the first \<^verbatim>\<open>$\<close> of the string, wherever it stands.
\<close>

definition is_digit :: "nat \<Rightarrow> bool" where
  "is_digit c = (48 \<le> c \<and> c \<le> 57)"

definition is_white :: "nat \<Rightarrow> bool" where
  "is_white c =
     (c \<in> {9, 10, 11, 12, 13, 32, 160, 5760, 8232, 8233, 8239, 8287, 12288, 65279}
      \<or> (8192 \<le> c \<and> c \<le> 8202))"

definition trim :: "jsstring \<Rightarrow> jsstring" where
  "trim s = rev (dropWhile is_white (rev (dropWhile is_white s)))"

definition replace_dollar :: "jsstring \<Rightarrow> jsstring" where
  "replace_dollar s = remove1 36 s"

text \<open>
  \<^verbatim>\<open>parseFloat\<close> skips leading white space and reads the longest prefix that is a
  decimal literal: an optional sign, then \<^verbatim>\<open>Infinity\<close>, or digits with an optional
  fraction, or a fraction alone, then an optional exponent (read only when it has a
  digit). Without such a prefix the result is NaN; otherwise it is the literal's value
  rounded to binary64.
\<close>

fun digits_value :: "nat \<Rightarrow> jsstring \<Rightarrow> nat" where
  "digits_value acc [] = acc"
| "digits_value acc (c # cs) = digits_value (10 * acc + (c - 48)) cs"

definition decimal_value :: "bool \<Rightarrow> nat \<Rightarrow> int \<Rightarrow> jsnum" where
  "decimal_value neg n e =
     round_double (if neg then - (of_nat n * pow10 e) else of_nat n * pow10 e)"

definition exp_digits :: "bool \<Rightarrow> jsstring \<Rightarrow> int" where
  "exp_digits neg es =
     (if es = [] then 0
      else if neg then - int (digits_value 0 es) else int (digits_value 0 es))"

definition signed_exp :: "jsstring \<Rightarrow> int" where
  "signed_exp r =
     (case r of
        [] \<Rightarrow> 0
      | c # r' \<Rightarrow>
          if c = 45 then exp_digits True (takeWhile is_digit r')
          else if c = 43 then exp_digits False (takeWhile is_digit r')
          else exp_digits False (takeWhile is_digit r))"

definition exponent_of :: "jsstring \<Rightarrow> int" where
  "exponent_of r =
     (case r of
        [] \<Rightarrow> 0
      | c # r' \<Rightarrow> if c = 101 \<or> c = 69 then signed_exp r' else 0)"

definition parse_fraction :: "bool \<Rightarrow> jsstring \<Rightarrow> jsstring \<Rightarrow> jsstring \<Rightarrow> jsnum" where
  "parse_fraction neg ip fp r =
     (if ip = [] \<and> fp = [] then NaN
      else decimal_value neg (digits_value 0 (ip @ fp)) (exponent_of r - int (length fp)))"

definition parse_integer :: "bool \<Rightarrow> jsstring \<Rightarrow> jsstring \<Rightarrow> jsnum" where
  "parse_integer neg ip r =
     (if ip = [] then NaN else decimal_value neg (digits_value 0 ip) (exponent_of r))"

definition parse_mantissa :: "bool \<Rightarrow> jsstring \<Rightarrow> jsstring \<Rightarrow> jsnum" where
  "parse_mantissa neg ip r =
     (case r of
        [] \<Rightarrow> parse_integer neg ip r
      | c # r' \<Rightarrow>
          if c = 46
          then parse_fraction neg ip (takeWhile is_digit r') (dropWhile is_digit r')
          else parse_integer neg ip r)"

definition parse_unsigned :: "bool \<Rightarrow> jsstring \<Rightarrow> jsnum" where
  "parse_unsigned neg t =
     (if take 8 t = str ''Infinity'' then (if neg then NegInfinity else Infinity)
      else parse_mantissa neg (takeWhile is_digit t) (dropWhile is_digit t))"

definition parse_signed :: "jsstring \<Rightarrow> jsnum" where
  "parse_signed t =
     (case t of
        [] \<Rightarrow> NaN
      | c # r \<Rightarrow>
          if c = 45 then parse_unsigned True r
          else if c = 43 then parse_unsigned False r
          else parse_unsigned False t)"

definition parseFloat :: "jsstring \<Rightarrow> jsnum" where
  "parseFloat s = parse_signed (dropWhile is_white s)"

text \<open>
  \<^verbatim>\<open>x.toFixed(f)\<close>, called by the code with \<open>f = 2\<close> only. NaN and the infinities
  print as their names. A magnitude below \<open>10 ^ 21\<close> prints as the integer nearest to
  \<open>x * 10 ^ f\<close> (the larger one on a tie), padded with zeros to \<open>f + 1\<close> digits, with a
  point before the last \<open>f\<close> digits. A magnitude of \<open>10 ^ 21\<close> or more prints as the
  Number's own string, which is in exponential notation there: the shortest digit
  string \<open>s\<close> (of \<open>k\<close> digits) with an exponent \<open>n\<close> such that \<open>s * 10 ^ (n - k)\<close>
  reads back as \<open>x\<close>, the nearest to \<open>x\<close> when several do.
\<close>

fun show_nat :: "nat \<Rightarrow> jsstring" where
  "show_nat n = (if n < 10 then [48 + n] else show_nat (n div 10) @ [48 + n mod 10])"

declare show_nat.simps [simp del]

definition reads_back :: "rat \<Rightarrow> nat \<Rightarrow> nat \<Rightarrow> nat \<times> nat \<Rightarrow> bool" where
  "reads_back a k n sn =
     (10 ^ (k - 1) \<le> fst sn \<and> fst sn < 10 ^ k
      \<and> round_double (of_nat (fst sn) * pow10 (int n - int k)) = Fin a)"

definition candidates_at :: "rat \<Rightarrow> nat \<Rightarrow> nat \<Rightarrow> (nat \<times> nat) list" where
  "candidates_at a k n =
     filter (reads_back a k n)
       [(nat \<lfloor>a / pow10 (int n - int k)\<rfloor>, n), (nat \<lfloor>a / pow10 (int n - int k)\<rfloor> + 1, n)]"

definition candidates :: "rat \<Rightarrow> nat \<Rightarrow> nat \<Rightarrow> (nat \<times> nat) list" where
  "candidates a d k = candidates_at a k (d - 1) @ candidates_at a k d @ candidates_at a k (d + 1)"

definition distance :: "rat \<Rightarrow> nat \<Rightarrow> nat \<times> nat \<Rightarrow> rat" where
  "distance a k sn = \<bar>of_nat (fst sn) * pow10 (int (snd sn) - int k) - a\<bar>"

definition closer :: "rat \<Rightarrow> nat \<Rightarrow> nat \<times> nat \<Rightarrow> nat \<times> nat \<Rightarrow> nat \<times> nat" where
  "closer a k best sn =
     (if distance a k sn < distance a k best
         \<or> (distance a k sn = distance a k best \<and> even (fst sn) \<and> odd (fst best))
      then sn else best)"

fun first_fit :: "rat \<Rightarrow> nat \<Rightarrow> nat list \<Rightarrow> nat \<times> nat \<times> nat" where
  "first_fit a d [] = (d, nat \<lfloor>a\<rfloor>, d)"
| "first_fit a d (k # ks) =
     (case candidates a d k of
        [] \<Rightarrow> first_fit a d ks
      | sn # sns \<Rightarrow> (k, foldl (closer a k) sn sns))"

definition exponential :: "nat \<times> nat \<times> nat \<Rightarrow> jsstring" where
  "exponential ksn =
     (case ksn of (k, s, n) \<Rightarrow>
        (if k = 1 then show_nat s else hd (show_nat s) # 46 # tl (show_nat s))
        @ str ''e+'' @ show_nat (n - 1))"

definition toString_large :: "rat \<Rightarrow> jsstring" where
  "toString_large a =
     exponential (first_fit a (length (show_nat (nat \<lfloor>a\<rfloor>)))
                    [1..<length (show_nat (nat \<lfloor>a\<rfloor>))])"

definition pad_zeros :: "nat \<Rightarrow> jsstring \<Rightarrow> jsstring" where
  "pad_zeros f m = replicate (f + 1 - length m) 48 @ m"

definition insert_point :: "nat \<Rightarrow> jsstring \<Rightarrow> jsstring" where
  "insert_point f m = (if f = 0 then m else take (length m - f) m @ 46 # drop (length m - f) m)"

definition fixed_digits :: "nat \<Rightarrow> rat \<Rightarrow> jsstring" where
  "fixed_digits f a =
     (if 10 ^ 21 \<le> a then toString_large a
      else insert_point f (pad_zeros f (show_nat (nat \<lfloor>a * 10 ^ f + 1 / 2\<rfloor>))))"

definition toFixed :: "nat \<Rightarrow> jsnum \<Rightarrow> jsstring" where
  "toFixed f x =
     (case x of
        NaN \<Rightarrow> str ''NaN''
      | Infinity \<Rightarrow> str ''Infinity''
      | NegInfinity \<Rightarrow> str ''-Infinity''
      | Fin q \<Rightarrow> if q < 0 then 45 # fixed_digits f (- q) else fixed_digits f q)"

section \<open>Array.prototype.sort\<close>

text \<open>
  The language leaves the order that \<^verbatim>\<open>sort\<close> produces to the implementation when the
  comparator is not consistent, and the availability comparator below (which never
  looks at its first argument) is not. The model is the algorithm of V8, the engine of
  Chrome and Node (\<^verbatim>\<open>third_party/v8/builtins/array-sort.tq\<close>), a TimSort: the array is
  cut into runs, a run shorter than the minimal run length is extended by binary
  insertion, and the runs are merged pairwise from a stack of pending runs.

  The engine sorts a work array in place and describes a run by its base index and
  its length. Here a run is the list of its elements and a position in a run is an
  index into that list. The pending runs are a list with the most recent run first,
  so that the work array is the pending runs in reverse order, one after the other,
  followed by the elements not yet visited. A merge writes to the place that its two
  runs occupy and never overtakes the elements that it still has to read; the list of
  the elements written and the lists of those left to read therefore stand for that
  part of the array.

  A negative comparator result means "first argument before second"; NaN counts as
  zero, so that the engine's test \<^verbatim>\<open>order >= 0\<close> is "not negative". The assertions that a
  merge states about its runs are branches of the model: a merge that finds one
  violated ends with \<open>None\<close>.
\<close>

definition order_negative :: "('a \<Rightarrow> 'a \<Rightarrow> jsnum) \<Rightarrow> 'a \<Rightarrow> 'a \<Rightarrow> bool" where
  "order_negative cmp x y = js_lt (cmp x y) (Fin 0)"

text \<open>
  \<^verbatim>\<open>BinaryInsertionSort(low, start, high)\<close>: the elements before \<^verbatim>\<open>start\<close> are in order, and
  every later element, the pivot, is put in its place among them. The place is found by
  \<^verbatim>\<open>
  while (left < right) {
    const mid = left + ((right - left) >> 1);
    const order = sortState.Compare(pivot, workArray.objects[mid]);
    if (order < 0) { right = mid; } else { left = mid + 1; }
  }
  \<close>
  which is \<open>binary_search\<close>; \<open>insert_pivot\<close> moves the elements from that place on up by
  one and writes the pivot there.
\<close>

function binary_search ::
  "('a \<Rightarrow> 'a \<Rightarrow> jsnum) \<Rightarrow> 'a \<Rightarrow> 'a list \<Rightarrow> nat \<Rightarrow> nat \<Rightarrow> nat" where
  "binary_search cmp pivot xs left right =
     (if left < right
      then (if order_negative cmp pivot (xs ! (left + (right - left) div 2))
            then binary_search cmp pivot xs left (left + (right - left) div 2)
            else binary_search cmp pivot xs (left + (right - left) div 2 + 1) right)
      else left)"
  by pat_completeness auto

termination
  by (relation "measure (\<lambda>(cmp, pivot, xs, left, right). right - left)") auto

declare binary_search.simps [simp del]

definition insert_pivot :: "('a \<Rightarrow> 'a \<Rightarrow> jsnum) \<Rightarrow> 'a list \<Rightarrow> 'a \<Rightarrow> 'a list" where
  "insert_pivot cmp prefix pivot =
     take (binary_search cmp pivot prefix 0 (length prefix)) prefix
     @ pivot # drop (binary_search cmp pivot prefix 0 (length prefix)) prefix"

fun binary_insertion_sort :: "('a \<Rightarrow> 'a \<Rightarrow> jsnum) \<Rightarrow> 'a list \<Rightarrow> 'a list \<Rightarrow> 'a list" where
  "binary_insertion_sort cmp prefix [] = prefix"
| "binary_insertion_sort cmp prefix (pivot # rest) =
     binary_insertion_sort cmp (insert_pivot cmp prefix pivot) rest"

text \<open>
  \<^verbatim>\<open>CountAndMakeRun(low, high)\<close>: the run at the start of the elements not yet visited. It
  is descending when its second element compares before its first (\<^verbatim>\<open>order < 0\<close>), and it
  goes on as long as the next element compares with the one before it in the same way
  (\<open>run_tail\<close>); a descending run is reversed. The result is the run and the elements
  behind it.
\<close>

fun run_tail :: "('a \<Rightarrow> 'a \<Rightarrow> jsnum) \<Rightarrow> bool \<Rightarrow> 'a \<Rightarrow> 'a list \<Rightarrow> 'a list \<times> 'a list" where
  "run_tail cmp descending previous [] = ([], [])"
| "run_tail cmp descending previous (current # others) =
     (if order_negative cmp current previous = descending
      then (current # fst (run_tail cmp descending current others),
            snd (run_tail cmp descending current others))
      else ([], current # others))"

fun count_and_make_run :: "('a \<Rightarrow> 'a \<Rightarrow> jsnum) \<Rightarrow> 'a list \<Rightarrow> 'a list \<times> 'a list" where
  "count_and_make_run cmp (high # low # others) =
     (if order_negative cmp low high
      then (rev (high # low # fst (run_tail cmp True low others)), snd (run_tail cmp True low others))
      else (high # low # fst (run_tail cmp False low others), snd (run_tail cmp False low others)))"
| "count_and_make_run cmp xs = (xs, [])"

text \<open>
  \<^verbatim>\<open>ComputeMinRunLength(n)\<close>: \<^verbatim>\<open>while (n >= 64) { r = r | (n & 1); n = n >> 1; }\<close>, then
  \<^verbatim>\<open>n + r\<close>, with \<^verbatim>\<open>r\<close> zero at the start. An array of fewer than 64 elements is therefore
  one run, extended by binary insertion to the whole array.
\<close>

function compute_min_run_length :: "nat \<Rightarrow> nat \<Rightarrow> nat" where
  "compute_min_run_length r n =
     (if 64 \<le> n then compute_min_run_length (max r (n mod 2)) (n div 2) else n + r)"
  by pat_completeness auto

termination
  by (relation "measure (\<lambda>(r, n). n)") auto

declare compute_min_run_length.simps [simp del]

text \<open>
  \<^verbatim>\<open>GallopLeft(array, key, base, length, hint)\<close> and \<^verbatim>\<open>GallopRight\<close> look for the place of
  \<^verbatim>\<open>key\<close> in a run, starting at the element \<^verbatim>\<open>hint\<close>: first at the offsets 1, 3, 7, ... from
  it, to the right or to the left as the first comparison says (\<open>gallop_loop\<close>, whose
  argument \<open>stop\<close> is the comparison that ends the loop), then by binary search between
  the last two offsets (\<open>gallop_search\<close>, where \<open>after m\<close> says that the key belongs behind
  element \<open>m\<close>). \<^verbatim>\<open>GallopLeft\<close> calls \<^verbatim>\<open>Compare(element, key)\<close> and returns the first place
  that the key may take, \<^verbatim>\<open>GallopRight\<close> calls \<^verbatim>\<open>Compare(key, element)\<close> and returns the
  last one. The run is the list \<open>xs\<close>, so that \<open>xs ! i\<close> is \<^verbatim>\<open>array[base + i]\<close> and
  \<open>length xs\<close> is \<^verbatim>\<open>length\<close>. Where the loop went to the left, the engine sets
  \<^verbatim>\<open>lastOfs = hint - offset\<close>, which may be -1, and adds one before the binary search:
  \<open>hint + 1 - offset\<close> here. The engine guards the step \<^verbatim>\<open>(offset << 1) + 1\<close> against
  integer overflow; offsets are natural numbers here.
\<close>

function gallop_loop :: "(nat \<Rightarrow> bool) \<Rightarrow> nat \<Rightarrow> nat \<Rightarrow> nat \<Rightarrow> nat \<times> nat" where
  "gallop_loop stop maxOfs lastOfs offset =
     (if offset < maxOfs
      then (if stop offset then (lastOfs, offset)
            else gallop_loop stop maxOfs offset (2 * offset + 1))
      else (lastOfs, offset))"
  by pat_completeness auto

termination
  by (relation "measure (\<lambda>(stop, maxOfs, lastOfs, offset). maxOfs - offset)") auto

declare gallop_loop.simps [simp del]

function gallop_search :: "(nat \<Rightarrow> bool) \<Rightarrow> nat \<Rightarrow> nat \<Rightarrow> nat" where
  "gallop_search after lastOfs offset =
     (if lastOfs < offset
      then (if after (lastOfs + (offset - lastOfs) div 2)
            then gallop_search after (lastOfs + (offset - lastOfs) div 2 + 1) offset
            else gallop_search after lastOfs (lastOfs + (offset - lastOfs) div 2))
      else offset)"
  by pat_completeness auto

termination
  by (relation "measure (\<lambda>(after, lastOfs, offset). offset - lastOfs)") auto

declare gallop_search.simps [simp del]

definition gallop_left :: "('a \<Rightarrow> 'a \<Rightarrow> jsnum) \<Rightarrow> 'a \<Rightarrow> 'a list \<Rightarrow> nat \<Rightarrow> nat" where
  "gallop_left cmp key xs hint =
     (if order_negative cmp (xs ! hint) key
      then (case gallop_loop (\<lambda>offset. \<not> order_negative cmp (xs ! (hint + offset)) key)
                   (length xs - hint) 0 1 of
              (lastOfs, offset) \<Rightarrow>
                gallop_search (\<lambda>m. order_negative cmp (xs ! m) key)
                  (lastOfs + hint + 1) (min offset (length xs - hint) + hint))
      else (case gallop_loop (\<lambda>offset. order_negative cmp (xs ! (hint - offset)) key)
                   (hint + 1) 0 1 of
              (lastOfs, offset) \<Rightarrow>
                gallop_search (\<lambda>m. order_negative cmp (xs ! m) key)
                  (hint + 1 - min offset (hint + 1)) (hint - lastOfs)))"

definition gallop_right :: "('a \<Rightarrow> 'a \<Rightarrow> jsnum) \<Rightarrow> 'a \<Rightarrow> 'a list \<Rightarrow> nat \<Rightarrow> nat" where
  "gallop_right cmp key xs hint =
     (if order_negative cmp key (xs ! hint)
      then (case gallop_loop (\<lambda>offset. \<not> order_negative cmp key (xs ! (hint - offset)))
                   (hint + 1) 0 1 of
              (lastOfs, offset) \<Rightarrow>
                gallop_search (\<lambda>m. \<not> order_negative cmp key (xs ! m))
                  (hint + 1 - min offset (hint + 1)) (hint - lastOfs))
      else (case gallop_loop (\<lambda>offset. order_negative cmp key (xs ! (hint + offset)))
                   (length xs - hint) 0 1 of
              (lastOfs, offset) \<Rightarrow>
                gallop_search (\<lambda>m. \<not> order_negative cmp key (xs ! m))
                  (lastOfs + hint + 1) (min offset (length xs - hint) + hint)))"

text \<open>
  \<^verbatim>\<open>MergeLow(baseA, lengthA, baseB, lengthB)\<close> merges run A, which it copies to a
  temporary array, with the run B behind it, from the left. In the model \<open>out\<close> holds
  the elements written so far, \<open>as\<close> what is left of A and \<open>bs\<close> what is left of B, so
  that \<^verbatim>\<open>lengthA\<close> is \<open>length as\<close> and \<^verbatim>\<open>lengthB\<close> is \<open>length bs\<close>. The label \<^verbatim>\<open>Succeed\<close>
  (one of the runs is used up) gives \<open>out @ as @ bs\<close>, the label \<^verbatim>\<open>CopyB\<close> (one element of
  A is left, and it belongs at the end) gives \<open>out @ bs @ as\<close>.

  \<open>merge_low_linear\<close> is one turn of the loop that takes one element at a time, until
  one run has won \<^verbatim>\<open>minGallop\<close> times in a row. \<open>merge_low_gallop\<close> is the test of the
  galloping loop
  \<^verbatim>\<open>
  while (nofWinsA >= kMinGallopWins || nofWinsB >= kMinGallopWins || firstIteration)
  \<close>
  (\<^verbatim>\<open>kMinGallopWins\<close> is 7) followed by one turn of it, \<open>merge_low_gallop_step\<close>: the
  elements of A that stand before the next of B are written at once, then that
  element of B, then the elements of B that stand before the next of A, then that
  element of A. \<^verbatim>\<open>minGallop\<close> goes down by one, but not below 1, in every turn of the
  galloping loop, and up by one when the loop is entered and when it is left; the
  result of a merge carries the value that the engine keeps for the next merge. Both
  loops assert \<^verbatim>\<open>lengthA > 1 && lengthB > 0\<close> at the start of a turn.
\<close>

datatype 'a gallop_outcome =
  Finished "'a list"
  | Continue nat nat "'a list" "'a list" "'a list"

definition merge_low_gallop_step ::
  "('a \<Rightarrow> 'a \<Rightarrow> jsnum) \<Rightarrow> 'a list \<Rightarrow> 'a list \<Rightarrow> 'a list \<Rightarrow> 'a gallop_outcome" where
  "merge_low_gallop_step cmp out as bs =
     (let nofWinsA = gallop_right cmp (hd bs) as 0;
          out1 = out @ take nofWinsA as;
          as1 = drop nofWinsA as
      in if 0 < nofWinsA \<and> length as1 = 1 then Finished (out1 @ bs @ as1)
         else if 0 < nofWinsA \<and> length as1 = 0 then Finished (out1 @ as1 @ bs)
         else if tl bs = [] then Finished (out1 @ [hd bs] @ as1)
         else let nofWinsB = gallop_left cmp (hd as1) (tl bs) 0;
                  out3 = out1 @ [hd bs] @ take nofWinsB (tl bs);
                  bs3 = drop nofWinsB (tl bs)
              in if 0 < nofWinsB \<and> bs3 = [] then Finished (out3 @ as1)
                 else if length (tl as1) = 1 then Finished (out3 @ [hd as1] @ bs3 @ tl as1)
                 else Continue nofWinsA nofWinsB (out3 @ [hd as1]) (tl as1) bs3)"

lemma merge_low_gallop_step_less:
  assumes "merge_low_gallop_step cmp out as bs = Continue nA nB out' as' bs'" and "bs \<noteq> []"
  shows "length as' + length bs' < length as + length bs"
proof -
  have "\<exists>k k'. as' = tl (drop k as) \<and> bs' = drop k' (tl bs)"
    using assms(1) by (simp add: merge_low_gallop_step_def Let_def split: if_splits) blast
  then obtain k k' where "as' = tl (drop k as)" and "bs' = drop k' (tl bs)"
    by blast
  then have "length as' \<le> length as" and "length bs' \<le> length bs - 1"
    by simp_all
  then show ?thesis using assms(2) by (cases bs) simp_all
qed

function merge_low_linear ::
    "('a \<Rightarrow> 'a \<Rightarrow> jsnum) \<Rightarrow> nat \<Rightarrow> nat \<Rightarrow> nat \<Rightarrow> 'a list \<Rightarrow> 'a list \<Rightarrow> 'a list
     \<Rightarrow> ('a list \<times> nat) option"
  and merge_low_gallop ::
    "('a \<Rightarrow> 'a \<Rightarrow> jsnum) \<Rightarrow> nat \<Rightarrow> nat \<Rightarrow> nat \<Rightarrow> bool \<Rightarrow> 'a list \<Rightarrow> 'a list \<Rightarrow> 'a list
     \<Rightarrow> ('a list \<times> nat) option" where
  "merge_low_linear cmp minGallop nofWinsA nofWinsB out as bs =
     (if length as \<le> 1 \<or> bs = [] then None
      else if order_negative cmp (hd bs) (hd as)
      then (if tl bs = [] then Some (out @ [hd bs] @ as, minGallop)
            else if minGallop \<le> nofWinsB + 1
            then merge_low_gallop cmp (minGallop + 1) 0 (nofWinsB + 1) True
                   (out @ [hd bs]) as (tl bs)
            else merge_low_linear cmp minGallop 0 (nofWinsB + 1) (out @ [hd bs]) as (tl bs))
      else (if length (tl as) = 1 then Some (out @ [hd as] @ bs @ tl as, minGallop)
            else if minGallop \<le> nofWinsA + 1
            then merge_low_gallop cmp (minGallop + 1) (nofWinsA + 1) 0 True
                   (out @ [hd as]) (tl as) bs
            else merge_low_linear cmp minGallop (nofWinsA + 1) 0 (out @ [hd as]) (tl as) bs))"
| "merge_low_gallop cmp minGallop nofWinsA nofWinsB firstIteration out as bs =
     (if 7 \<le> nofWinsA \<or> 7 \<le> nofWinsB \<or> firstIteration
      then (if length as \<le> 1 \<or> bs = [] then None
            else case merge_low_gallop_step cmp out as bs of
                   Finished result \<Rightarrow> Some (result, max 1 (minGallop - 1))
                 | Continue nA nB out' as' bs' \<Rightarrow>
                     merge_low_gallop cmp (max 1 (minGallop - 1)) nA nB False out' as' bs')
      else merge_low_linear cmp (minGallop + 1) 0 0 out as bs)"
  by pat_completeness auto

termination
  apply (relation "measure (\<lambda>x. case x of
          Inl (cmp, minGallop, nofWinsA, nofWinsB, out, as, bs) \<Rightarrow> 2 * (length as + length bs)
        | Inr (cmp, minGallop, nofWinsA, nofWinsB, firstIteration, out, as, bs) \<Rightarrow>
            2 * (length as + length bs) + 1)")
  apply simp_all
  subgoal for cmp minGallop nofWinsB as bs by (cases bs) simp_all
  subgoal for cmp minGallop nofWinsA as bs by (cases as) simp_all
  subgoal for cmp minGallop nofWinsA as bs by (cases as) simp_all
  subgoal for cmp nofWinsA nofWinsB firstIteration out as bs nA nB out' as' bs'
    using merge_low_gallop_step_less [of cmp out as bs nA nB out' as' bs'] by simp
  done

declare merge_low_linear.simps [simp del] merge_low_gallop.simps [simp del]

definition merge_low ::
  "('a \<Rightarrow> 'a \<Rightarrow> jsnum) \<Rightarrow> nat \<Rightarrow> 'a list \<Rightarrow> 'a list \<Rightarrow> ('a list \<times> nat) option" where
  "merge_low cmp minGallop as bs =
     (if as = [] \<or> bs = [] then None
      else if tl bs = [] then Some ([hd bs] @ as, minGallop)
      else if length as = 1 then Some ([hd bs] @ tl bs @ as, minGallop)
      else merge_low_linear cmp minGallop 0 0 [hd bs] as (tl bs))"

text \<open>
  \<^verbatim>\<open>MergeHigh\<close> is the mirror image, for a run B that is shorter than A: B is copied to
  the temporary array, and the merge runs from the right. \<open>out\<close> holds the elements
  written at the end, and elements are taken from the ends of \<open>as\<close> and \<open>bs\<close>.
  \<^verbatim>\<open>Succeed\<close> gives \<open>as @ bs @ out\<close>, and \<^verbatim>\<open>CopyA\<close> (one element of B is left, and it belongs
  at the front) gives \<open>bs @ as @ out\<close>. The loops assert \<^verbatim>\<open>lengthA > 0 && lengthB > 1\<close>.
\<close>

definition merge_high_gallop_step ::
  "('a \<Rightarrow> 'a \<Rightarrow> jsnum) \<Rightarrow> 'a list \<Rightarrow> 'a list \<Rightarrow> 'a list \<Rightarrow> 'a gallop_outcome" where
  "merge_high_gallop_step cmp out as bs =
     (let k = gallop_right cmp (last bs) as (length as - 1);
          nofWinsA = length as - k;
          out1 = drop k as @ out;
          as1 = take k as
      in if 0 < nofWinsA \<and> length as1 = 0 then Finished (as1 @ bs @ out1)
         else if length (butlast bs) = 1 then Finished (butlast bs @ as1 @ [last bs] @ out1)
         else let k = gallop_left cmp (last as1) (butlast bs) (length (butlast bs) - 1);
                  nofWinsB = length (butlast bs) - k;
                  out3 = drop k (butlast bs) @ [last bs] @ out1;
                  bs3 = take k (butlast bs)
              in if 0 < nofWinsB \<and> length bs3 = 1 then Finished (bs3 @ as1 @ out3)
                 else if 0 < nofWinsB \<and> length bs3 = 0 then Finished (as1 @ bs3 @ out3)
                 else if butlast as1 = [] then Finished (butlast as1 @ bs3 @ [last as1] @ out3)
                 else Continue nofWinsA nofWinsB ([last as1] @ out3) (butlast as1) bs3)"

lemma merge_high_gallop_step_less:
  assumes "merge_high_gallop_step cmp out as bs = Continue nA nB out' as' bs'" and "1 < length bs"
  shows "length as' + length bs' < length as + length bs"
proof -
  have "\<exists>k k'. as' = butlast (take k as) \<and> bs' = take k' (butlast bs)"
    using assms(1) by (simp add: merge_high_gallop_step_def Let_def split: if_splits) blast
  then obtain k k' where "as' = butlast (take k as)" and "bs' = take k' (butlast bs)"
    by blast
  then have "length as' \<le> length as" and "length bs' \<le> length bs - 1"
    by simp_all
  then show ?thesis using assms(2) by simp
qed

function merge_high_linear ::
    "('a \<Rightarrow> 'a \<Rightarrow> jsnum) \<Rightarrow> nat \<Rightarrow> nat \<Rightarrow> nat \<Rightarrow> 'a list \<Rightarrow> 'a list \<Rightarrow> 'a list
     \<Rightarrow> ('a list \<times> nat) option"
  and merge_high_gallop ::
    "('a \<Rightarrow> 'a \<Rightarrow> jsnum) \<Rightarrow> nat \<Rightarrow> nat \<Rightarrow> nat \<Rightarrow> bool \<Rightarrow> 'a list \<Rightarrow> 'a list \<Rightarrow> 'a list
     \<Rightarrow> ('a list \<times> nat) option" where
  "merge_high_linear cmp minGallop nofWinsA nofWinsB out as bs =
     (if as = [] \<or> length bs \<le> 1 then None
      else if order_negative cmp (last bs) (last as)
      then (if butlast as = [] then Some (bs @ [last as] @ out, minGallop)
            else if minGallop \<le> nofWinsA + 1
            then merge_high_gallop cmp (minGallop + 1) (nofWinsA + 1) 0 True
                   ([last as] @ out) (butlast as) bs
            else merge_high_linear cmp minGallop (nofWinsA + 1) 0 ([last as] @ out) (butlast as) bs)
      else (if length (butlast bs) = 1 then Some (butlast bs @ as @ [last bs] @ out, minGallop)
            else if minGallop \<le> nofWinsB + 1
            then merge_high_gallop cmp (minGallop + 1) 0 (nofWinsB + 1) True
                   ([last bs] @ out) as (butlast bs)
            else merge_high_linear cmp minGallop 0 (nofWinsB + 1) ([last bs] @ out) as (butlast bs)))"
| "merge_high_gallop cmp minGallop nofWinsA nofWinsB firstIteration out as bs =
     (if 7 \<le> nofWinsA \<or> 7 \<le> nofWinsB \<or> firstIteration
      then (if as = [] \<or> length bs \<le> 1 then None
            else case merge_high_gallop_step cmp out as bs of
                   Finished result \<Rightarrow> Some (result, max 1 (minGallop - 1))
                 | Continue nA nB out' as' bs' \<Rightarrow>
                     merge_high_gallop cmp (max 1 (minGallop - 1)) nA nB False out' as' bs')
      else merge_high_linear cmp (minGallop + 1) 0 0 out as bs)"
  by pat_completeness auto

termination
  apply (relation "measure (\<lambda>x. case x of
          Inl (cmp, minGallop, nofWinsA, nofWinsB, out, as, bs) \<Rightarrow> 2 * (length as + length bs)
        | Inr (cmp, minGallop, nofWinsA, nofWinsB, firstIteration, out, as, bs) \<Rightarrow>
            2 * (length as + length bs) + 1)")
  apply simp_all
  subgoal for cmp minGallop nofWinsA as bs by (cases as) simp_all
  subgoal for cmp minGallop nofWinsB as bs by (cases bs) simp_all
  subgoal for cmp minGallop nofWinsB as bs by (cases bs) simp_all
  subgoal for cmp nofWinsA nofWinsB firstIteration out as bs nA nB out' as' bs'
    using merge_high_gallop_step_less [of cmp out as bs nA nB out' as' bs'] by auto
  done

declare merge_high_linear.simps [simp del] merge_high_gallop.simps [simp del]

definition merge_high ::
  "('a \<Rightarrow> 'a \<Rightarrow> jsnum) \<Rightarrow> nat \<Rightarrow> 'a list \<Rightarrow> 'a list \<Rightarrow> ('a list \<times> nat) option" where
  "merge_high cmp minGallop as bs =
     (if as = [] \<or> bs = [] then None
      else if butlast as = [] then Some (bs @ [last as], minGallop)
      else if length bs = 1 then Some (bs @ butlast as @ [last as], minGallop)
      else merge_high_linear cmp minGallop 0 0 [last as] (butlast as) bs)"


text \<open>
  \<^verbatim>\<open>MergeAt(i)\<close> merges two neighbouring pending runs A and B. The elements of A that
  stand before the first element of B are in place already (\<open>k\<close> of them), and so are
  the elements of B that stand behind the last element of A; what is left is merged by
  \<^verbatim>\<open>MergeLow\<close> when the rest of A is not longer than the rest of B, by \<^verbatim>\<open>MergeHigh\<close>
  otherwise.
\<close>

definition merge_at ::
  "('a \<Rightarrow> 'a \<Rightarrow> jsnum) \<Rightarrow> nat \<Rightarrow> 'a list \<Rightarrow> 'a list \<Rightarrow> ('a list \<times> nat) option" where
  "merge_at cmp minGallop as bs =
     (if as = [] \<or> bs = [] then None
      else let k = gallop_right cmp (hd bs) as 0
           in if length as - k = 0 then Some (as @ bs, minGallop)
              else let lengthB = gallop_left cmp (last as) bs (length bs - 1)
                   in if lengthB = 0 then Some (as @ bs, minGallop)
                      else if length as - k \<le> lengthB
                      then map_option (\<lambda>(merged, mg). (take k as @ merged @ drop lengthB bs, mg))
                             (merge_low cmp minGallop (drop k as) (take lengthB bs))
                      else map_option (\<lambda>(merged, mg). (take k as @ merged @ drop lengthB bs, mg))
                             (merge_high cmp minGallop (drop k as) (take lengthB bs)))"

text \<open>
  \<^verbatim>\<open>MergeCollapse\<close> merges pending runs until the lengths on top of the stack satisfy
  \<^verbatim>\<open>run_length(n - 2) > run_length(n - 1) + run_length(n)\<close> and
  \<^verbatim>\<open>run_length(n - 1) > run_length(n)\<close>; \<^verbatim>\<open>MergeForceCollapse\<close> merges until one run is
  left. In a list of pending runs \<open>x # y # z # pending\<close> the run \<open>x\<close> is the most recent
  one, at the engine's index \<^verbatim>\<open>n + 1\<close> where \<^verbatim>\<open>n\<close> is the size of the stack minus 2; \<open>y\<close>
  is the run at \<^verbatim>\<open>n\<close> and \<open>z\<close> the run at \<^verbatim>\<open>n - 1\<close>. Of two neighbours the one deeper in the
  stack comes first in the array.
\<close>

fun run_invariant_established :: "'a list list \<Rightarrow> bool" where
  "run_invariant_established (x # y # z # pending) = (length y + length x < length z)"
| "run_invariant_established pending = True"

function (sequential) merge_collapse ::
  "('a \<Rightarrow> 'a \<Rightarrow> jsnum) \<Rightarrow> nat \<Rightarrow> 'a list list \<Rightarrow> ('a list list \<times> nat) option" where
  "merge_collapse cmp minGallop (x # y # z # pending) =
     (if \<not> run_invariant_established (x # y # z # pending)
         \<or> \<not> run_invariant_established (y # z # pending)
      then (if length z < length x
            then (case merge_at cmp minGallop z y of
                    None \<Rightarrow> None
                  | Some (merged, mg) \<Rightarrow> merge_collapse cmp mg (x # merged # pending))
            else (case merge_at cmp minGallop y x of
                    None \<Rightarrow> None
                  | Some (merged, mg) \<Rightarrow> merge_collapse cmp mg (merged # z # pending)))
      else if length y \<le> length x
      then (case merge_at cmp minGallop y x of
              None \<Rightarrow> None
            | Some (merged, mg) \<Rightarrow> merge_collapse cmp mg (merged # z # pending))
      else Some (x # y # z # pending, minGallop))"
| "merge_collapse cmp minGallop [x, y] =
     (if length y \<le> length x
      then (case merge_at cmp minGallop y x of
              None \<Rightarrow> None
            | Some (merged, mg) \<Rightarrow> merge_collapse cmp mg [merged])
      else Some ([x, y], minGallop))"
| "merge_collapse cmp minGallop pending = Some (pending, minGallop)"
  by pat_completeness auto

termination
  by (relation "measure (\<lambda>(cmp, minGallop, pending). length pending)") auto

function (sequential) merge_force_collapse ::
  "('a \<Rightarrow> 'a \<Rightarrow> jsnum) \<Rightarrow> nat \<Rightarrow> 'a list list \<Rightarrow> ('a list list \<times> nat) option" where
  "merge_force_collapse cmp minGallop (x # y # z # pending) =
     (if length z < length x
      then (case merge_at cmp minGallop z y of
              None \<Rightarrow> None
            | Some (merged, mg) \<Rightarrow> merge_force_collapse cmp mg (x # merged # pending))
      else (case merge_at cmp minGallop y x of
              None \<Rightarrow> None
            | Some (merged, mg) \<Rightarrow> merge_force_collapse cmp mg (merged # z # pending)))"
| "merge_force_collapse cmp minGallop [x, y] =
     (case merge_at cmp minGallop y x of
        None \<Rightarrow> None
      | Some (merged, mg) \<Rightarrow> merge_force_collapse cmp mg [merged])"
| "merge_force_collapse cmp minGallop pending = Some (pending, minGallop)"
  by pat_completeness auto

termination
  by (relation "measure (\<lambda>(cmp, minGallop, pending). length pending)") auto

text \<open>
  \<^verbatim>\<open>ArrayTimSortImpl\<close>: as long as elements remain, the next run is taken, extended by
  binary insertion to \<^verbatim>\<open>min(minRunLength, remaining)\<close> elements when it is shorter than
  \<^verbatim>\<open>minRunLength\<close> (\<open>next_run\<close>), pushed on the stack, and the stack is collapsed
  (\<open>tim_sort_runs\<close>); at the end the stack is collapsed by force, and the one run left is
  the sorted array. \<^verbatim>\<open>minGallop\<close> starts at \<^verbatim>\<open>kMinGallopWins\<close>. An array of fewer than two
  elements is returned as it is.
\<close>

definition next_run :: "('a \<Rightarrow> 'a \<Rightarrow> jsnum) \<Rightarrow> nat \<Rightarrow> 'a list \<Rightarrow> 'a list \<times> 'a list" where
  "next_run cmp minRunLength remaining =
     (case count_and_make_run cmp remaining of
        (run, others) \<Rightarrow>
          if length run < minRunLength
          then (binary_insertion_sort cmp run
                  (take (min minRunLength (length remaining) - length run) others),
                drop (min minRunLength (length remaining) - length run) others)
          else (run, others))"

lemma length_run_tail:
  "length (snd (run_tail cmp d previous xs)) \<le> length xs"
  by (induction xs arbitrary: previous) (auto simp: le_SucI)

lemma length_count_and_make_run:
  "xs \<noteq> [] \<Longrightarrow> length (snd (count_and_make_run cmp xs)) < length xs"
proof (cases xs)
  case Nil
  assume "xs \<noteq> []"
  then show ?thesis using Nil by simp
next
  case (Cons high ys)
  show ?thesis
  proof (cases ys)
    case Nil
    then show ?thesis using Cons by simp
  next
    case (Cons low others)
    have "length (snd (run_tail cmp d low others)) \<le> length others" for d
      by (rule length_run_tail)
    then show ?thesis using \<open>xs = high # ys\<close> Cons by (simp add: le_imp_less_Suc less_SucI)
  qed
qed

lemma length_next_run:
  "xs \<noteq> [] \<Longrightarrow> length (snd (next_run cmp minRunLength xs)) < length xs"
  using length_count_and_make_run [of xs cmp]
  by (auto simp: next_run_def split: prod.splits)

function tim_sort_runs ::
  "('a \<Rightarrow> 'a \<Rightarrow> jsnum) \<Rightarrow> nat \<Rightarrow> nat \<Rightarrow> 'a list list \<Rightarrow> 'a list \<Rightarrow> ('a list list \<times> nat) option" where
  "tim_sort_runs cmp minRunLength minGallop pending remaining =
     (if remaining = [] then Some (pending, minGallop)
      else case merge_collapse cmp minGallop
                  (fst (next_run cmp minRunLength remaining) # pending) of
             None \<Rightarrow> None
           | Some (pending', mg) \<Rightarrow>
               tim_sort_runs cmp minRunLength mg pending'
                 (snd (next_run cmp minRunLength remaining)))"
  by pat_completeness auto

termination
  by (relation "measure (\<lambda>(cmp, minRunLength, minGallop, pending, remaining). length remaining)")
     (simp_all add: length_next_run)

declare tim_sort_runs.simps [simp del]

definition array_sort :: "('a \<Rightarrow> 'a \<Rightarrow> jsnum) \<Rightarrow> 'a list \<Rightarrow> 'a list option" where
  "array_sort cmp xs =
     (if length xs < 2 then Some xs
      else case tim_sort_runs cmp (compute_min_run_length 0 (length xs)) 7 [] xs of
             None \<Rightarrow> None
           | Some (pending, mg) \<Rightarrow>
               map_option (\<lambda>(pending', mg'). concat (rev pending'))
                 (merge_force_collapse cmp mg pending))"

text \<open>
  A list is grouped by \<open>P\<close> when no element without \<open>P\<close> stands before an element with
  \<open>P\<close>.
\<close>

definition grouped :: "('a \<Rightarrow> bool) \<Rightarrow> 'a list \<Rightarrow> bool" where
  "grouped P xs = sorted_wrt (\<lambda>a b. P b \<longrightarrow> P a) xs"

section \<open>Data model\<close>

text \<open>
  The types of the source, field for field:
  \<^verbatim>\<open>
  type PriceHistory = { date: string; price: number };
  type Store = { id: string; name: string; url: string; price: string; inStock: boolean;
                 priceHistory: PriceHistory[]; priceAlert?: number; tempPrice?: string };
  type Part = { id: string; name: string; type: string; stores: Store[];
                lastChecked: string; compatibility?: string[] };
  type SavedBuild = { id: string; name: string; date: string; parts: Part[] };
  \<close>
  Fields that several types share carry the type's name in front. An optional field is an
  \<open>option\<close>. The form state \<^verbatim>\<open>newPart\<close> is a \<^verbatim>\<open>Partial<Part>\<close>: each field may be absent;
  \<^verbatim>\<open>handleAddPart\<close> overwrites \<^verbatim>\<open>id\<close>, \<^verbatim>\<open>lastChecked\<close> and \<^verbatim>\<open>stores\<close> and copies the rest
  into the new Part behind a cast, so the \<^verbatim>\<open>type\<close> of a Part is whatever the form
  held, absent included.
\<close>

record PriceHistory =
  hist_date :: jsstring
  hist_price :: jsnum

record Store =
  store_id :: jsstring
  store_name :: jsstring
  url :: jsstring
  price :: jsstring
  inStock :: bool
  priceHistory :: "PriceHistory list"
  priceAlert :: "jsnum option"
  tempPrice :: "jsstring option"

record Part =
  part_id :: jsstring
  part_name :: jsstring
  part_type :: "jsstring option"
  stores :: "Store list"
  lastChecked :: jsstring
  compatibility :: "jsstring list option"

record SavedBuild =
  build_id :: jsstring
  build_name :: jsstring
  build_date :: jsstring
  build_parts :: "Part list"

record NewPart =
  np_name :: "jsstring option"
  np_type :: "jsstring option"
  np_stores :: "Store list option"
  np_compatibility :: "jsstring list option"

datatype SortBy = ByName | ByPrice | ByAvailability

text \<open>
  The state of the component is its hooks and the \<^verbatim>\<open>savedBuilds\<close> item of local storage.
\<close>

record AppState =
  parts :: "Part list"
  showAddForm :: bool
  showFilters :: bool
  showSaveDialog :: bool
  showLoadDialog :: bool
  buildName :: jsstring
  savedBuilds :: "SavedBuild list"
  selectedType :: jsstring
  sortBy :: SortBy
  isDark :: bool
  newPart :: NewPart
  storage :: "jsstring option"

text \<open>
  What a handler reads from the host: \<^verbatim>\<open>Date.now().toString()\<close>,
  \<^verbatim>\<open>new Date().toLocaleDateString()\<close> (one reading of the clock for the whole handler),
  \<^verbatim>\<open>JSON.stringify\<close> and \<^verbatim>\<open>JSON.parse\<close> on the list of saved builds, and
  \<^verbatim>\<open>localeCompare\<close>.
\<close>

record Host =
  now :: jsstring
  today :: jsstring
  stringify :: "SavedBuild list \<Rightarrow> jsstring"
  parse :: "jsstring \<Rightarrow> SavedBuild list"
  localeCompare :: "jsstring \<Rightarrow> jsstring \<Rightarrow> jsnum"

section \<open>Build persistence\<close>

text \<open>
  \<^verbatim>\<open>
  const handleSaveBuild = () => {
    if (!buildName.trim()) return;
    const newBuild = { id: Date.now().toString(), name: buildName,
                       date: new Date().toLocaleDateString(), parts: parts };
    const updatedBuilds = [...savedBuilds, newBuild];
    setSavedBuilds(updatedBuilds);
    localStorage.setItem('savedBuilds', JSON.stringify(updatedBuilds));
    setBuildName('');
    setShowSaveDialog(false);
  };
  const handleLoadBuild = (build) => { setParts(build.parts); setShowLoadDialog(false); };
  const handleDeleteBuild = (buildId) => {
    const updatedBuilds = savedBuilds.filter(build => build.id !== buildId);
    setSavedBuilds(updatedBuilds);
    localStorage.setItem('savedBuilds', JSON.stringify(updatedBuilds));
  };
  \<close>
  The write to local storage is taken to succeed.
\<close>

definition handleSaveBuild :: "Host \<Rightarrow> AppState \<Rightarrow> AppState" where
  "handleSaveBuild h s =
     (if trim (buildName s) = [] then s
      else s\<lparr>savedBuilds :=
                 savedBuilds s @
                 [\<lparr>build_id = now h, build_name = buildName s, build_date = today h,
                   build_parts = parts s\<rparr>],
               storage :=
                 Some (stringify h
                   (savedBuilds s @
                    [\<lparr>build_id = now h, build_name = buildName s, build_date = today h,
                      build_parts = parts s\<rparr>])),
               buildName := [],
               showSaveDialog := False\<rparr>)"

definition handleLoadBuild :: "SavedBuild \<Rightarrow> AppState \<Rightarrow> AppState" where
  "handleLoadBuild build s = s\<lparr>parts := build_parts build, showLoadDialog := False\<rparr>"

definition handleDeleteBuild :: "Host \<Rightarrow> jsstring \<Rightarrow> AppState \<Rightarrow> AppState" where
  "handleDeleteBuild h buildId s =
     s\<lparr>savedBuilds := filter (\<lambda>build. build_id build \<noteq> buildId) (savedBuilds s),
       storage :=
         Some (stringify h (filter (\<lambda>build. build_id build \<noteq> buildId) (savedBuilds s)))\<rparr>"

section \<open>The add-part form\<close>

text \<open>
  The form starts with one blank store row, whose id is the clock reading. Rows are
  added at the end, removed by id unless at most one is left, and edited by id; the
  form edits the name, url, price and stock flag of a row.
  \<^verbatim>\<open>
  const handleRemoveStore = (storeId) => {
    if ((newPart.stores?.length || 0) <= 1) return;
    setNewPart({ ...newPart,
      stores: (newPart.stores || []).filter(store => store.id !== storeId) });
  };
  \<close>
\<close>

definition blankStore :: "jsstring \<Rightarrow> Store" where
  "blankStore i =
     \<lparr>store_id = i, store_name = [], url = [], price = [], inStock = False,
      priceHistory = [], priceAlert = None, tempPrice = None\<rparr>"

definition blankForm :: "jsstring \<Rightarrow> NewPart" where
  "blankForm i =
     \<lparr>np_name = None, np_type = Some (str ''CPU''), np_stores = Some [blankStore i],
      np_compatibility = None\<rparr>"

definition storesOrEmpty :: "NewPart \<Rightarrow> Store list" where
  "storesOrEmpty np = (case np_stores np of None \<Rightarrow> [] | Some ss \<Rightarrow> ss)"

definition handleAddStore :: "Host \<Rightarrow> AppState \<Rightarrow> AppState" where
  "handleAddStore h s =
     s\<lparr>newPart := (newPart s)\<lparr>np_stores :=
         Some (storesOrEmpty (newPart s) @ [blankStore (now h)])\<rparr>\<rparr>"

definition handleRemoveStore :: "jsstring \<Rightarrow> AppState \<Rightarrow> AppState" where
  "handleRemoveStore storeId s =
     (if length (storesOrEmpty (newPart s)) \<le> 1 then s
      else s\<lparr>newPart := (newPart s)\<lparr>np_stores :=
             Some (filter (\<lambda>store. store_id store \<noteq> storeId)
                     (storesOrEmpty (newPart s)))\<rparr>\<rparr>)"

datatype StoreField = SetName jsstring | SetUrl jsstring | SetPrice jsstring | SetInStock bool

fun setField :: "StoreField \<Rightarrow> Store \<Rightarrow> Store" where
  "setField (SetName v) store = store\<lparr>store_name := v\<rparr>"
| "setField (SetUrl v) store = store\<lparr>url := v\<rparr>"
| "setField (SetPrice v) store = store\<lparr>price := v\<rparr>"
| "setField (SetInStock v) store = store\<lparr>inStock := v\<rparr>"

definition handleStoreChange :: "jsstring \<Rightarrow> StoreField \<Rightarrow> AppState \<Rightarrow> AppState" where
  "handleStoreChange storeId fv s =
     s\<lparr>newPart := (newPart s)\<lparr>np_stores :=
         Some (map (\<lambda>store. if store_id store = storeId then setField fv store else store)
                 (storesOrEmpty (newPart s)))\<rparr>\<rparr>"

section \<open>Price history\<close>

text \<open>
  \<^verbatim>\<open>
  const updatePriceHistory = (store, newPrice) => {
    const priceNum = parseFloat(newPrice.replace('$', ''));
    if (isNaN(priceNum)) return store.priceHistory;
    const lastEntry = store.priceHistory[store.priceHistory.length - 1];
    const currentDate = new Date().toLocaleDateString();
    if (!lastEntry || lastEntry.price !== priceNum || lastEntry.date !== currentDate) {
      return [...store.priceHistory, { date: currentDate, price: priceNum }];
    }
    return store.priceHistory;
  };
  \<close>
  Reading past the end of an empty history gives \<^verbatim>\<open>undefined\<close>, here \<open>None\<close>.
\<close>

definition lastEntry :: "PriceHistory list \<Rightarrow> PriceHistory option" where
  "lastEntry hs = (if hs = [] then None else Some (last hs))"

definition updatePriceHistory :: "Host \<Rightarrow> Store \<Rightarrow> jsstring \<Rightarrow> PriceHistory list" where
  "updatePriceHistory h store newPrice =
     (if isNaN (parseFloat (replace_dollar newPrice)) then priceHistory store
      else case lastEntry (priceHistory store) of
             None \<Rightarrow>
               priceHistory store @
               [\<lparr>hist_date = today h, hist_price = parseFloat (replace_dollar newPrice)\<rparr>]
           | Some e \<Rightarrow>
               if strict_ne (hist_price e) (parseFloat (replace_dollar newPrice))
                  \<or> hist_date e \<noteq> today h
               then priceHistory store @
                    [\<lparr>hist_date = today h, hist_price = parseFloat (replace_dollar newPrice)\<rparr>]
               else priceHistory store)"

section \<open>The catalog\<close>

text \<open>
  \<^verbatim>\<open>
  if (newPart.name &&
      newPart.stores?.every(store => store.name && store.url && store.price)) { ... }
  \<close>
  A string is truthy when it is not empty, an absent name or store list is falsy, and
  \<^verbatim>\<open>every\<close> holds of an empty list. \<open>formValid\<close> is this test on its own;
  \<open>handleAddPart\<close> makes it while taking the form apart.
\<close>

definition storeComplete :: "Store \<Rightarrow> bool" where
  "storeComplete store = (store_name store \<noteq> [] \<and> url store \<noteq> [] \<and> price store \<noteq> [])"

definition formValid :: "NewPart \<Rightarrow> bool" where
  "formValid np =
     (case np_name np of
        None \<Rightarrow> False
      | Some n \<Rightarrow>
          n \<noteq> [] \<and> (case np_stores np of None \<Rightarrow> False | Some ss \<Rightarrow> list_all storeComplete ss))"

definition handleAddPart :: "Host \<Rightarrow> AppState \<Rightarrow> AppState" where
  "handleAddPart h s =
     (case np_name (newPart s) of
        None \<Rightarrow> s
      | Some n \<Rightarrow>
          (case np_stores (newPart s) of
             None \<Rightarrow> s
           | Some ss \<Rightarrow>
               if n \<noteq> [] \<and> list_all storeComplete ss
               then s\<lparr>parts :=
                          parts s @
                          [\<lparr>part_id = now h,
                            part_name = n,
                            part_type = np_type (newPart s),
                            stores =
                              map (\<lambda>store. store\<lparr>priceHistory :=
                                                  updatePriceHistory h store (price store)\<rparr>) ss,
                            lastChecked = today h,
                            compatibility = np_compatibility (newPart s)\<rparr>],
                        showAddForm := False,
                        newPart := blankForm (now h)\<rparr>
               else s))"

definition handleDeletePart :: "jsstring \<Rightarrow> AppState \<Rightarrow> AppState" where
  "handleDeletePart i s = s\<lparr>parts := filter (\<lambda>part. part_id part \<noteq> i) (parts s)\<rparr>"

definition handlePriceInputChange :: "jsstring \<Rightarrow> jsstring \<Rightarrow> jsstring \<Rightarrow> AppState \<Rightarrow> AppState" where
  "handlePriceInputChange partId storeId v s =
     s\<lparr>parts :=
         map (\<lambda>part.
                if part_id part = partId
                then part\<lparr>stores :=
                       map (\<lambda>store. if store_id store = storeId
                                     then store\<lparr>tempPrice := Some v\<rparr> else store)
                         (stores part)\<rparr>
                else part)
           (parts s)\<rparr>"

definition handlePriceUpdate :: "Host \<Rightarrow> jsstring \<Rightarrow> jsstring \<Rightarrow> jsstring \<Rightarrow> AppState \<Rightarrow> AppState" where
  "handlePriceUpdate h partId storeId newPrice s =
     s\<lparr>parts :=
         map (\<lambda>part.
                if part_id part = partId
                then part\<lparr>lastChecked := today h,
                          stores :=
                            map (\<lambda>store.
                                   if store_id store = storeId
                                   then store\<lparr>price := newPrice,
                                              tempPrice := None,
                                              priceHistory := updatePriceHistory h store newPrice\<rparr>
                                   else store)
                              (stores part)\<rparr>
                else part)
           (parts s)\<rparr>"

definition toggleStock :: "Host \<Rightarrow> jsstring \<Rightarrow> jsstring \<Rightarrow> AppState \<Rightarrow> AppState" where
  "toggleStock h partId storeId s =
     s\<lparr>parts :=
         map (\<lambda>part.
                if part_id part = partId
                then part\<lparr>lastChecked := today h,
                          stores :=
                            map (\<lambda>store. if store_id store = storeId
                                          then store\<lparr>inStock := \<not> inStock store\<rparr> else store)
                              (stores part)\<rparr>
                else part)
           (parts s)\<rparr>"

definition setPriceAlert :: "jsstring \<Rightarrow> jsstring \<Rightarrow> jsnum \<Rightarrow> AppState \<Rightarrow> AppState" where
  "setPriceAlert partId storeId v s =
     s\<lparr>parts :=
         map (\<lambda>part.
                if part_id part = partId
                then part\<lparr>stores :=
                       map (\<lambda>store. if store_id store = storeId
                                     then store\<lparr>priceAlert := Some v\<rparr> else store)
                         (stores part)\<rparr>
                else part)
           (parts s)\<rparr>"

section \<open>Derived values\<close>

text \<open>
  \<^verbatim>\<open>
  const getBestPrice = (stores) => {
    const prices = stores.map(store => parseFloat(store.price.replace('$', '')));
    return '$' + Math.min(...prices).toFixed(2);
  };
  const getAvailabilityStatus = (stores) => stores.some(store => store.inStock);
  const getTotalBuildCost = () =>
    parts.reduce((total, part) => {
      const bestPrice = parseFloat(getBestPrice(part.stores).replace('$', ''));
      return total + bestPrice;
    }, 0);
  \<close>
  (the source writes the first result as a template literal). \<open>priceNumber\<close> is the
  number \<^verbatim>\<open>getBestPrice\<close> reads from one store, \<open>bestPriceNumber\<close> the number
  \<^verbatim>\<open>getTotalBuildCost\<close> and the price comparator read back from the formatted best
  price of one part.
\<close>

definition priceNumber :: "Store \<Rightarrow> jsnum" where
  "priceNumber store = parseFloat (replace_dollar (price store))"

definition getBestPrice :: "Store list \<Rightarrow> jsstring" where
  "getBestPrice ss = 36 # toFixed 2 (Math_min (map priceNumber ss))"

definition getAvailabilityStatus :: "Store list \<Rightarrow> bool" where
  "getAvailabilityStatus ss = list_ex inStock ss"

definition bestPriceNumber :: "Part \<Rightarrow> jsnum" where
  "bestPriceNumber part = parseFloat (replace_dollar (getBestPrice (stores part)))"

definition getTotalBuildCost :: "Part list \<Rightarrow> jsnum" where
  "getTotalBuildCost ps = foldl (\<lambda>total part. js_add total (bestPriceNumber part)) (Fin 0) ps"

text \<open>
  \<^verbatim>\<open>
  const filteredAndSortedParts = parts
    .filter(part => selectedType === 'all' || part.type === selectedType)
    .sort((a, b) => {
      switch (sortBy) {
        case 'name': return a.name.localeCompare(b.name);
        case 'price': return parseFloat(getBestPrice(a.stores).replace('$', ''))
                           - parseFloat(getBestPrice(b.stores).replace('$', ''));
        case 'availability': return getAvailabilityStatus(b.stores) ? 1 : -1;
        default: return 0;
      }
    });
  \<close>
  \<^verbatim>\<open>sortBy\<close> has one of its three values, so the default branch is never taken. The
  list shown is \<open>None\<close> when an assertion of the engine's sort fails.
\<close>

definition compareParts :: "Host \<Rightarrow> SortBy \<Rightarrow> Part \<Rightarrow> Part \<Rightarrow> jsnum" where
  "compareParts h key a b =
     (case key of
        ByName \<Rightarrow> localeCompare h (part_name a) (part_name b)
      | ByPrice \<Rightarrow> js_sub (bestPriceNumber a) (bestPriceNumber b)
      | ByAvailability \<Rightarrow> if getAvailabilityStatus (stores b) then Fin 1 else Fin (- 1))"

definition filteredAndSortedParts :: "Host \<Rightarrow> AppState \<Rightarrow> Part list option" where
  "filteredAndSortedParts h s =
     array_sort (compareParts h (sortBy s))
       (filter (\<lambda>part. selectedType s = str ''all'' \<or> part_type part = Some (selectedType s))
          (parts s))"

section \<open>The application as a state machine\<close>

text \<open>
  The first state: an empty catalog, the blank form, and the saved builds read from
  local storage when the item is there and not empty. An action is one call of a
  handler from the page, with its arguments; \<open>LoadBuild i\<close> is the Load button of the
  \<open>i\<close>-th saved build, which passes that build. The flags that open and close
  dialogs, the type filter and the sort key have no action: no handler reads them.
\<close>

definition initialState :: "Host \<Rightarrow> bool \<Rightarrow> jsstring option \<Rightarrow> AppState" where
  "initialState h dark stored =
     \<lparr>parts = [], showAddForm = False, showFilters = False, showSaveDialog = False,
      showLoadDialog = False, buildName = [],
      savedBuilds = (case stored of None \<Rightarrow> [] | Some t \<Rightarrow> if t = [] then [] else parse h t),
      selectedType = str ''all'', sortBy = ByName, isDark = dark,
      newPart = blankForm (now h), storage = stored\<rparr>"

datatype Action =
    SaveBuild
  | LoadBuild nat
  | DeleteBuild jsstring
  | ChangeBuildName jsstring
  | AddStore
  | RemoveStore jsstring
  | StoreChange jsstring StoreField
  | ChangePartName jsstring
  | ChangePartType jsstring
  | AddPart
  | DeletePart jsstring
  | PriceInputChange jsstring jsstring jsstring
  | PriceUpdate jsstring jsstring jsstring
  | ToggleStock jsstring jsstring
  | SetPriceAlert jsstring jsstring jsnum

fun dispatch :: "Host \<Rightarrow> Action \<Rightarrow> AppState \<Rightarrow> AppState" where
  "dispatch h SaveBuild s = handleSaveBuild h s"
| "dispatch h (LoadBuild i) s =
     (if i < length (savedBuilds s) then handleLoadBuild (savedBuilds s ! i) s else s)"
| "dispatch h (DeleteBuild i) s = handleDeleteBuild h i s"
| "dispatch h (ChangeBuildName v) s = s\<lparr>buildName := v\<rparr>"
| "dispatch h AddStore s = handleAddStore h s"
| "dispatch h (RemoveStore i) s = handleRemoveStore i s"
| "dispatch h (StoreChange i fv) s = handleStoreChange i fv s"
| "dispatch h (ChangePartName v) s = s\<lparr>newPart := (newPart s)\<lparr>np_name := Some v\<rparr>\<rparr>"
| "dispatch h (ChangePartType v) s = s\<lparr>newPart := (newPart s)\<lparr>np_type := Some v\<rparr>\<rparr>"
| "dispatch h AddPart s = handleAddPart h s"
| "dispatch h (DeletePart i) s = handleDeletePart i s"
| "dispatch h (PriceInputChange pid sid v) s = handlePriceInputChange pid sid v s"
| "dispatch h (PriceUpdate pid sid v) s = handlePriceUpdate h pid sid v s"
| "dispatch h (ToggleStock pid sid) s = toggleStock h pid sid s"
| "dispatch h (SetPriceAlert pid sid v) s = setPriceAlert pid sid v s"

fun run :: "(Host \<times> Action) list \<Rightarrow> AppState \<Rightarrow> AppState" where
  "run [] s = s"
| "run (e # es) s = run es (dispatch (fst e) (snd e) s)"

fun deletesBuild :: "Action \<Rightarrow> bool" where
  "deletesBuild (DeleteBuild i) = True"
| "deletesBuild a = False"

section \<open>Vocabulary of the specification\<close>

text \<open>
  The invariant of the data model: every Part has at least one Store. \<open>wellFormed\<close>
  adds what the handlers need in order to keep it: the saved builds satisfy it too, and
  the form has a store list that is not empty and whose ids are pairwise distinct.
  \<open>freshClicks\<close> says of a sequence of actions that every Add Store click reads a
  clock value that is not the id of a row already in the form.
\<close>

definition everyPartHasStore :: "Part list \<Rightarrow> bool" where
  "everyPartHasStore ps = list_all (\<lambda>part. stores part \<noteq> []) ps"

definition formOk :: "NewPart \<Rightarrow> bool" where
  "formOk np =
     (np_stores np \<noteq> None \<and> storesOrEmpty np \<noteq> []
      \<and> distinct (map store_id (storesOrEmpty np)))"

definition buildsOk :: "SavedBuild list \<Rightarrow> bool" where
  "buildsOk bs = list_all (\<lambda>build. everyPartHasStore (build_parts build)) bs"

definition wellFormed :: "AppState \<Rightarrow> bool" where
  "wellFormed s = (everyPartHasStore (parts s) \<and> buildsOk (savedBuilds s) \<and> formOk (newPart s))"

fun freshClicks :: "(Host \<times> Action) list \<Rightarrow> AppState \<Rightarrow> bool" where
  "freshClicks [] s = True"
| "freshClicks (e # es) s =
     ((snd e \<noteq> AddStore \<or> now (fst e) \<notin> set (map store_id (storesOrEmpty (newPart s))))
      \<and> freshClicks es (dispatch (fst e) (snd e) s))"

text \<open>
  Finite prices and their minimum. \<open>stripLeadingDollar\<close> removes a \<^verbatim>\<open>$\<close> only from the
  front of a string, as the specification words it.
\<close>

definition isFinite :: "jsnum \<Rightarrow> bool" where
  "isFinite x = (case x of Fin q \<Rightarrow> True | _ \<Rightarrow> False)"

definition finiteValue :: "jsnum \<Rightarrow> rat" where
  "finiteValue x = (case x of Fin q \<Rightarrow> q | _ \<Rightarrow> 0)"

definition lowestOf :: "Store list \<Rightarrow> rat" where
  "lowestOf ss = Min ((\<lambda>store. finiteValue (priceNumber store)) ` set ss)"

definition lowestPrice :: "Part \<Rightarrow> rat" where
  "lowestPrice part = lowestOf (stores part)"

definition pricesFinite :: "Part \<Rightarrow> bool" where
  "pricesFinite part =
     (stores part \<noteq> [] \<and> list_all (\<lambda>store. isFinite (priceNumber store)) (stores part))"

definition stripLeadingDollar :: "jsstring \<Rightarrow> jsstring" where
  "stripLeadingDollar s = (case s of [] \<Rightarrow> [] | c # r \<Rightarrow> if c = 36 then r else s)"

text \<open>
  A number in fixed notation with exactly two decimals: the sign, the integer part of
  the magnitude rounded to hundredths (half up), a point and two digits.
  \<open>roundCents\<close> is that decimal as a Number, \<open>shownValue\<close> the Number read back from
  what \<^verbatim>\<open>toFixed(2)\<close> prints.
\<close>

definition cents :: "rat \<Rightarrow> nat" where
  "cents q = nat \<lfloor>\<bar>q\<bar> * 100 + 1 / 2\<rfloor>"

definition twoDecimals :: "rat \<Rightarrow> jsstring" where
  "twoDecimals q =
     (if q < 0 then [45] else [])
     @ show_nat (cents q div 100) @ [46, 48 + cents q div 10 mod 10, 48 + cents q mod 10]"

definition roundCents :: "rat \<Rightarrow> jsnum" where
  "roundCents q =
     (if q < 0 then round_double (- (of_nat (cents q) / 100))
      else round_double (of_nat (cents q) / 100))"

definition shownValue :: "rat \<Rightarrow> jsnum" where
  "shownValue q = parseFloat (toFixed 2 (Fin q))"

text \<open>
  The best price and the total as the specification words them: the minimum of the
  prices parsed after a leading \<^verbatim>\<open>$\<close> is stripped, with two decimals; and the sum of
  the minimum parsed prices.
\<close>

definition claimedBestPrice :: "Store list \<Rightarrow> jsstring" where
  "claimedBestPrice ss =
     36 # twoDecimals
            (Min ((\<lambda>store. finiteValue (parseFloat (stripLeadingDollar (price store)))) ` set ss))"

definition sumOfLowest :: "Part list \<Rightarrow> jsnum" where
  "sumOfLowest ps =
     foldl js_add (Fin 0) (map (\<lambda>part. Math_min (map priceNumber (stores part))) ps)"

text \<open>
  A total is non-finite when it is \<open>Infinity\<close> or NaN; a number is not below zero when
  it is \<open>Infinity\<close> or finite and at least zero.
\<close>

definition nonFinite :: "jsnum \<Rightarrow> bool" where
  "nonFinite x = (x = Infinity \<or> x = NaN)"

definition notBelowZero :: "jsnum \<Rightarrow> bool" where
  "notBelowZero x = (case x of Fin v \<Rightarrow> 0 \<le> v | Infinity \<Rightarrow> True | _ \<Rightarrow> False)"

text \<open>
  A part is available when at least one of its stores has the item in stock. A list is
  available first when no part without a store in stock stands before a part with one.
\<close>

definition available :: "Part \<Rightarrow> bool" where
  "available part = (\<exists>store \<in> set (stores part). inStock store = True)"

definition availableFirst :: "Part list \<Rightarrow> bool" where
  "availableFirst ps = sorted_wrt (\<lambda>a b. available b \<longrightarrow> available a) ps"

section \<open>Example data\<close>

text \<open>
  The first part of the sample catalog, with its two listings, on 2 January 2024;
  \<open>1979076949531689 / 4398046511104\<close> is the binary64 value of 449.99.
\<close>

definition demoHost :: Host where
  "demoHost =
     \<lparr>now = str ''1704153600000'', today = str ''1/2/2024'',
      stringify = (\<lambda>bs. concat (map build_name bs)),
      parse = (\<lambda>t. []),
      localeCompare = (\<lambda>a b. Fin 0)\<rparr>"

definition newegg :: Store where
  "newegg =
     \<lparr>store_id = str ''1a'', store_name = str ''Newegg'', url = str ''https://www.newegg.com'',
      price = str ''$449.99'', inStock = True,
      priceHistory = [\<lparr>hist_date = str ''1/1/2024'', hist_price = Fin (1979076949531689 / 4398046511104)\<rparr>],
      priceAlert = None, tempPrice = None\<rparr>"

definition amazon :: Store where
  "amazon =
     \<lparr>store_id = str ''1b'', store_name = str ''Amazon'', url = str ''https://www.amazon.com'',
      price = str ''$459.99'', inStock = False, priceHistory = [],
      priceAlert = None, tempPrice = None\<rparr>"

definition ryzen :: Part where
  "ryzen =
     \<lparr>part_id = str ''1'', part_name = str ''AMD Ryzen 7 7800X3D'', part_type = Some (str ''CPU''),
      stores = [newegg, amazon], lastChecked = str ''1/1/2024'', compatibility = None\<rparr>"

definition demoBuild :: "jsstring \<Rightarrow> SavedBuild" where
  "demoBuild i =
     \<lparr>build_id = i, build_name = str ''Gaming rig'', build_date = str ''1/1/2024'',
      build_parts = [ryzen]\<rparr>"

definition demoState :: AppState where
  "demoState =
     \<lparr>parts = [ryzen], showAddForm = False, showFilters = False, showSaveDialog = True,
      showLoadDialog = False, buildName = str ''Gaming rig'',
      savedBuilds = [demoBuild (str ''1''), demoBuild (str ''2'')],
      selectedType = str ''all'', sortBy = ByName, isDark = False,
      newPart = blankForm (str ''1704153500000''), storage = None\<rparr>"

definition pricedStore :: "jsstring \<Rightarrow> Store" where
  "pricedStore p =
     \<lparr>store_id = str ''9z'', store_name = str ''Corner Shop'', url = str ''https://shop.example'',
      price = p, inStock = True, priceHistory = [], priceAlert = None, tempPrice = None\<rparr>"

definition partWith :: "Store list \<Rightarrow> Part" where
  "partWith ss =
     \<lparr>part_id = str ''9'', part_name = str ''Thermal paste'', part_type = Some (str ''Cooling''),
      stores = ss, lastChecked = str ''1/1/2024'', compatibility = None\<rparr>"

definition shelf :: AppState where
  "shelf = demoState\<lparr>parts := [partWith [amazon], ryzen], sortBy := ByAvailability\<rparr>"

text \<open>
  Six actions that all read the same clock value, one second after the page was loaded:
  two store rows are added, the first row is removed, then the row added first is
  removed, a name is typed and the form is submitted.
\<close>

definition laterHost :: Host where
  "laterHost = demoHost\<lparr>now := str ''1704153601000''\<rparr>"

definition clashingClicks :: "(Host \<times> Action) list" where
  "clashingClicks =
     [(laterHost, AddStore),
      (laterHost, AddStore),
      (laterHost, RemoveStore (str ''1704153600000'')),
      (laterHost, RemoveStore (str ''1704153601000'')),
      (laterHost, ChangePartName (str ''GPU bracket'')),
      (laterHost, AddPart)]"

section \<open>Evaluation rules\<close>

text \<open>
  The floor of a quotient of numerals, for the rationals; and the definitions to unfold
  when a Number is computed from a literal.
\<close>

lemma floor_rat_divide_numeral [simp]:
  "\<lfloor>(numeral a :: rat) / numeral b\<rfloor> = numeral a div numeral b"
  using floor_divide_of_int_eq [of "numeral a" "numeral b", where ?'a = rat] by simp

lemma floor_rat_one_divide_numeral [simp]:
  "\<lfloor>(1 :: rat) / numeral b\<rfloor> = 1 div numeral b"
  using floor_divide_of_int_eq [of 1 "numeral b", where ?'a = rat] by simp

lemmas num_eval = round_double_def round_scaled_def overflow_check_def round_half_even_def
  ties_even_def floor_log2_def neg_log2_def pow2_def pow10_def bit_length.simps

lemmas parse_eval = parseFloat_def parse_signed_def parse_unsigned_def parse_mantissa_def
  parse_integer_def parse_fraction_def exponent_of_def signed_exp_def exp_digits_def
  decimal_value_def is_digit_def is_white_def str_def

lemmas fixed_eval = toFixed_def fixed_digits_def insert_point_def pad_zeros_def show_nat.simps str_def

lemmas large_eval = toString_large_def exponential_def candidates_def candidates_at_def
  reads_back_def distance_def closer_def

lemma price_newegg: "priceNumber newegg = Fin (1979076949531689 / 4398046511104)"
  by (simp add: priceNumber_def newegg_def replace_dollar_def parse_eval num_eval)

lemma price_amazon: "priceNumber amazon = Fin (2023057414642729 / 4398046511104)"
  by (simp add: priceNumber_def amazon_def replace_dollar_def parse_eval num_eval)

lemma shown_newegg:
  "toFixed 2 (Fin (1979076949531689 / 4398046511104)) = str ''449.99''"
  by (simp add: fixed_eval)

lemma parse_shown_newegg:
  "parseFloat (str ''449.99'') = Fin (1979076949531689 / 4398046511104)"
  by (simp add: parse_eval num_eval)

lemma add_zero_newegg:
  "js_add (Fin 0) (Fin (1979076949531689 / 4398046511104)) = Fin (1979076949531689 / 4398046511104)"
  by (simp add: js_add_def num_eval)

lemma lowest_ryzen: "lowestOf [newegg, amazon] = 1979076949531689 / 4398046511104"
  by (simp add: lowestOf_def price_newegg price_amazon finiteValue_def)

lemma best_price_ryzen: "getBestPrice [newegg, amazon] = str ''$449.99''"
  using price_newegg price_amazon shown_newegg
  by (simp add: getBestPrice_def Math_min_def js_lt_def) (simp add: str_def)

section \<open>Best price (C1)\<close>

lemma min_loop_finite:
  "min_loop (Fin l) (map Fin qs) = Fin (fold min qs l)"
proof (induction qs arbitrary: l)
  case Nil
  show ?case by simp
next
  case (Cons q qs)
  have "(if q < l then Fin q else Fin l) = Fin (min q l)"
    by (simp add: min_def)
  then show ?case by (simp add: Cons.IH js_lt_def)
qed

lemma Math_min_finite:
  assumes "qs \<noteq> []"
  shows "Math_min (map Fin qs) = Fin (Min (set qs))"
proof -
  obtain q rest where qs: "qs = q # rest"
    using assms by (cases qs) auto
  have "Math_min (map Fin qs) = min_loop (Fin q) (map Fin rest)"
    by (simp add: qs Math_min_def js_lt_def)
  also have "\<dots> = Fin (fold min rest q)"
    by (rule min_loop_finite)
  also have "fold min rest q = Min (set (q # rest))"
    by (simp only: Min.set_eq_fold)
  finally show ?thesis by (simp only: qs)
qed

lemma map_finite_values:
  "list_all (\<lambda>x. isFinite (f x)) xs \<Longrightarrow> map f xs = map Fin (map (\<lambda>x. finiteValue (f x)) xs)"
  by (induction xs) (auto simp: finiteValue_def isFinite_def split: jsnum.splits)

lemma show_nat_nonempty: "show_nat n \<noteq> []"
  by (subst show_nat.simps) simp

lemma show_nat_two_last:
  assumes "100 \<le> n"
  shows "show_nat n = show_nat (n div 100) @ [48 + n div 10 mod 10, 48 + n mod 10]"
proof -
  have a: "show_nat n = show_nat (n div 10) @ [48 + n mod 10]"
    using assms by (subst show_nat.simps) simp
  have "\<not> n div 10 < 10" using assms by simp
  then have b: "show_nat (n div 10) = show_nat (n div 10 div 10) @ [48 + n div 10 mod 10]"
    by (subst show_nat.simps) simp
  have c: "n div 10 div 10 = n div 100" by (simp add: div_mult2_eq)
  show ?thesis using a b c by simp
qed

lemma fixed_shape:
  "insert_point 2 (pad_zeros 2 (show_nat n))
   = show_nat (n div 100) @ [46, 48 + n div 10 mod 10, 48 + n mod 10]"
proof -
  consider "n < 10" | "10 \<le> n" "n < 100" | "100 \<le> n" by linarith
  then show ?thesis
  proof cases
    case 1
    then have "show_nat n = [48 + n]" by (subst show_nat.simps) simp
    moreover have "show_nat (n div 100) = [48]" using 1 by (subst show_nat.simps) simp
    ultimately show ?thesis using 1
      by (simp add: insert_point_def pad_zeros_def numeral_2_eq_2)
  next
    case 2
    then have "show_nat n = show_nat (n div 10) @ [48 + n mod 10]"
      by (subst show_nat.simps) simp
    moreover have d: "n div 10 < 10" using 2 by arith
    moreover have "show_nat (n div 10) = [48 + n div 10]"
      using d by (subst show_nat.simps) simp
    moreover have "show_nat (n div 100) = [48]" using 2 by (subst show_nat.simps) simp
    moreover have "n div 10 mod 10 = n div 10" using d by simp
    ultimately show ?thesis
      by (simp add: insert_point_def pad_zeros_def)
  next
    case 3
    have l: "Suc 0 \<le> length (show_nat (n div 100))"
      using show_nat_nonempty [of "n div 100"] by (cases "show_nat (n div 100)") simp_all
    show ?thesis
      using l by (simp add: show_nat_two_last [OF 3] insert_point_def pad_zeros_def)
  qed
qed

lemma toFixed_two_decimals:
  assumes "\<bar>q\<bar> < 10 ^ 21"
  shows "toFixed 2 (Fin q) = twoDecimals q"
proof (cases "q < 0")
  case True
  then have "\<not> 10 ^ 21 \<le> - q" using assms by simp
  with True show ?thesis
    by (simp add: toFixed_def fixed_digits_def fixed_shape twoDecimals_def cents_def abs_if)
next
  case False
  then have "\<not> 10 ^ 21 \<le> q" using assms by simp
  with False show ?thesis
    by (simp add: toFixed_def fixed_digits_def fixed_shape twoDecimals_def cents_def abs_if)
qed

lemma getBestPrice_lowest:
  assumes "ss \<noteq> []" and "list_all (\<lambda>store. isFinite (priceNumber store)) ss"
  shows "getBestPrice ss = 36 # toFixed 2 (Fin (lowestOf ss))"
proof -
  let ?qs = "map (\<lambda>store. finiteValue (priceNumber store)) ss"
  have m: "map priceNumber ss = map Fin ?qs"
    using map_finite_values [OF assms(2)] .
  have n: "?qs \<noteq> []"
    using assms(1) by simp
  have "Math_min (map Fin ?qs) = Fin (Min (set ?qs))"
    using Math_min_finite [OF n] .
  then have "Math_min (map priceNumber ss) = Fin (Min (set ?qs))"
    by (simp only: m)
  then show ?thesis
    by (simp add: getBestPrice_def lowestOf_def)
qed

text \<open>
  C1, as amended. For a store list that is not empty and whose prices, after removal of
  the first \<^verbatim>\<open>$\<close> wherever it stands, all parse to finite numbers, \<open>getBestPrice\<close>
  returns \<^verbatim>\<open>$\<close> followed by what \<^verbatim>\<open>toFixed(2)\<close> prints for the minimum of the parsed
  prices; when the magnitude of that minimum is below \<open>10 ^ 21\<close> this is the minimum in
  fixed notation with exactly two decimals.
\<close>

theorem getBestPrice_minimum:
  assumes "ss \<noteq> []" and "list_all (\<lambda>store. isFinite (priceNumber store)) ss"
  shows "getBestPrice ss = 36 # toFixed 2 (Fin (lowestOf ss))
         \<and> (\<bar>lowestOf ss\<bar> < 10 ^ 21 \<longrightarrow> getBestPrice ss = 36 # twoDecimals (lowestOf ss))"
  using getBestPrice_lowest [OF assms] toFixed_two_decimals by simp

theorem getBestPrice_minimum_witness:
  "getBestPrice [newegg, amazon] = str ''$449.99''"
  using getBestPrice_minimum [of "[newegg, amazon]"]
  by (simp add: price_newegg price_amazon isFinite_def lowest_ryzen shown_newegg)
     (simp add: str_def)

text \<open>
  The claim as first stated fails in two ways. The price \<^verbatim>\<open>1$2\<close> has no leading
  \<^verbatim>\<open>$\<close> and parses to 1 as it stands, but the code removes the inner \<^verbatim>\<open>$\<close> and reads
  12. The price \<^verbatim>\<open>1e21\<close> is finite, but its best price is printed in exponential
  notation, not with two decimals.
\<close>

lemma odd_price:
  "parseFloat (stripLeadingDollar (str ''1$2'')) = Fin 1
   \<and> priceNumber (pricedStore (str ''1$2'')) = Fin 12"
  by (simp add: stripLeadingDollar_def priceNumber_def pricedStore_def replace_dollar_def
      parse_eval num_eval)

lemma huge_price:
  "parseFloat (stripLeadingDollar (str ''1e21'')) = Fin (10 ^ 21)
   \<and> priceNumber (pricedStore (str ''1e21'')) = Fin (10 ^ 21)"
  by (simp add: stripLeadingDollar_def priceNumber_def pricedStore_def replace_dollar_def
      parse_eval num_eval)

lemma shown_twelve: "toFixed 2 (Fin 12) = str ''12.00''"
  by (simp add: fixed_eval)

lemma shown_huge: "toFixed 2 (Fin (10 ^ 21)) = str ''1e+21''"
  by (simp add: fixed_eval large_eval num_eval)

lemma two_decimals_examples:
  "twoDecimals 1 = str ''1.00'' \<and> twoDecimals (10 ^ 21) = str ''1000000000000000000000.00''"
  by (simp add: twoDecimals_def cents_def show_nat.simps str_def)

theorem getBestPrice_counterexample:
  "isFinite (parseFloat (stripLeadingDollar (price (pricedStore (str ''1$2'')))))
   \<and> claimedBestPrice [pricedStore (str ''1$2'')] = str ''$1.00''
   \<and> getBestPrice [pricedStore (str ''1$2'')] = str ''$12.00''
   \<and> getBestPrice [pricedStore (str ''1$2'')] \<noteq> claimedBestPrice [pricedStore (str ''1$2'')]
   \<and> isFinite (parseFloat (stripLeadingDollar (price (pricedStore (str ''1e21'')))))
   \<and> claimedBestPrice [pricedStore (str ''1e21'')] = str ''$1000000000000000000000.00''
   \<and> getBestPrice [pricedStore (str ''1e21'')] = str ''$1e+21''
   \<and> getBestPrice [pricedStore (str ''1e21'')] \<noteq> claimedBestPrice [pricedStore (str ''1e21'')]"
proof -
  have a: "getBestPrice [pricedStore (str ''1$2'')] = str ''$12.00''"
    using odd_price shown_twelve
    by (simp add: getBestPrice_def Math_min_def js_lt_def) (simp add: str_def)
  have b: "getBestPrice [pricedStore (str ''1e21'')] = str ''$1e+21''"
    using huge_price shown_huge
    by (simp add: getBestPrice_def Math_min_def js_lt_def) (simp add: str_def)
  have c: "claimedBestPrice [pricedStore (str ''1$2'')] = str ''$1.00''"
    using odd_price two_decimals_examples
    by (simp add: claimedBestPrice_def pricedStore_def finiteValue_def) (simp add: str_def)
  have d: "claimedBestPrice [pricedStore (str ''1e21'')] = str ''$1000000000000000000000.00''"
    using huge_price two_decimals_examples
    by (simp add: claimedBestPrice_def pricedStore_def finiteValue_def) (simp add: str_def)
  have e: "str ''$12.00'' \<noteq> str ''$1.00''"
    "str ''$1e+21'' \<noteq> str ''$1000000000000000000000.00''"
    by (simp_all add: str_def)
  show ?thesis
    using a b c d e odd_price huge_price by (simp add: pricedStore_def isFinite_def)
qed

section \<open>Price history (C2, C4)\<close>

text \<open>
  C2. When the new price, with its \<^verbatim>\<open>$\<close> removed, parses to a number \<open>p\<close> (anything
  but NaN), the history returned is the old history with the one entry (today, \<open>p\<close>)
  appended, unless the last old entry already carries today's date and the price
  \<open>p\<close>, in which case it is the old history. In both cases the old entries stay
  where they were, unchanged.
\<close>

theorem updatePriceHistory_appends_once:
  assumes "parseFloat (replace_dollar newPrice) = p" and "p \<noteq> NaN"
  shows "updatePriceHistory h store newPrice =
           (if priceHistory store \<noteq> []
               \<and> hist_date (last (priceHistory store)) = today h
               \<and> hist_price (last (priceHistory store)) = p
            then priceHistory store
            else priceHistory store @ [\<lparr>hist_date = today h, hist_price = p\<rparr>])
         \<and> take (length (priceHistory store)) (updatePriceHistory h store newPrice)
             = priceHistory store"
  using assms
  by (auto simp: updatePriceHistory_def lastEntry_def isNaN_def strict_ne_def)

theorem updatePriceHistory_appends_once_witness:
  "parseFloat (replace_dollar (str ''$429.99'')) = Fin (1891116019309609 / 4398046511104)
   \<and> Fin (1891116019309609 / 4398046511104) \<noteq> NaN
   \<and> updatePriceHistory demoHost newegg (str ''$429.99'')
       = [\<lparr>hist_date = str ''1/1/2024'', hist_price = Fin (1979076949531689 / 4398046511104)\<rparr>,
          \<lparr>hist_date = str ''1/2/2024'', hist_price = Fin (1891116019309609 / 4398046511104)\<rparr>]
   \<and> take (length (priceHistory newegg)) (updatePriceHistory demoHost newegg (str ''$429.99''))
       = priceHistory newegg"
proof -
  have p: "parseFloat (replace_dollar (str ''$429.99'')) = Fin (1891116019309609 / 4398046511104)"
    by (simp add: replace_dollar_def parse_eval num_eval)
  show ?thesis
    using updatePriceHistory_appends_once [OF p, of demoHost newegg] p
    by (simp add: newegg_def demoHost_def str_def)
qed

text \<open>
  C4. When the new price does not parse (\<^verbatim>\<open>parseFloat\<close> yields NaN), a price update
  leaves the price history of every store as it was, the target store's included, and
  still writes the new string into the target store's price field. The handler is a
  total function: nothing is raised.
\<close>

theorem unparseable_price_keeps_history:
  assumes "isNaN (parseFloat (replace_dollar newPrice))"
  shows "length (parts (handlePriceUpdate h partId storeId newPrice s)) = length (parts s)
     \<and> (\<forall>i < length (parts s).
          length (stores (parts (handlePriceUpdate h partId storeId newPrice s) ! i))
            = length (stores (parts s ! i))
          \<and> (\<forall>j < length (stores (parts s ! i)).
                priceHistory (stores (parts (handlePriceUpdate h partId storeId newPrice s) ! i) ! j)
                  = priceHistory (stores (parts s ! i) ! j)
                \<and> (part_id (parts s ! i) = partId \<and> store_id (stores (parts s ! i) ! j) = storeId
                     \<longrightarrow> price (stores (parts (handlePriceUpdate h partId storeId newPrice s) ! i) ! j)
                         = newPrice)))"
  using assms by (simp add: handlePriceUpdate_def updatePriceHistory_def)

theorem unparseable_price_keeps_history_witness:
  "isNaN (parseFloat (replace_dollar (str ''n/a'')))
   \<and> parts (handlePriceUpdate demoHost (str ''1'') (str ''1a'') (str ''n/a'') demoState)
       = [ryzen\<lparr>lastChecked := str ''1/2/2024'', stores := [newegg\<lparr>price := str ''n/a''\<rparr>, amazon]\<rparr>]
   \<and> priceHistory (stores (parts (handlePriceUpdate demoHost (str ''1'') (str ''1a'') (str ''n/a'') demoState) ! 0) ! 0)
       = priceHistory newegg
   \<and> price (stores (parts (handlePriceUpdate demoHost (str ''1'') (str ''1a'') (str ''n/a'') demoState) ! 0) ! 0)
       = str ''n/a''"
proof -
  have p: "isNaN (parseFloat (replace_dollar (str ''n/a'')))"
    by (simp add: isNaN_def replace_dollar_def parse_eval)
  have "parts (handlePriceUpdate demoHost (str ''1'') (str ''1a'') (str ''n/a'') demoState)
       = [ryzen\<lparr>lastChecked := str ''1/2/2024'', stores := [newegg\<lparr>price := str ''n/a''\<rparr>, amazon]\<rparr>]"
    using p by (simp add: handlePriceUpdate_def updatePriceHistory_def demoState_def ryzen_def
        newegg_def amazon_def demoHost_def str_def)
  then show ?thesis
    using unparseable_price_keeps_history [OF p, of demoHost "str ''1''" "str ''1a''" demoState] p
    by simp
qed

section \<open>Saved builds (C3, C5, C6)\<close>

lemma dropWhile_all_white:
  "(\<forall>c \<in> set (dropWhile is_white s). is_white c) \<longleftrightarrow> (\<forall>c \<in> set s. is_white c)"
proof (induction s)
  case Nil
  show ?case by simp
next
  case (Cons a s)
  show ?case
  proof (cases "is_white a")
    case True
    with Cons show ?thesis by simp
  next
    case False
    then show ?thesis by auto
  qed
qed

lemma trim_empty_iff: "trim s = [] \<longleftrightarrow> list_all is_white s"
  by (simp add: trim_def dropWhile_all_white list_all_iff)

lemma dispatch_keeps_builds:
  assumes "\<not> deletesBuild a" and "i < length (savedBuilds s)"
  shows "i < length (savedBuilds (dispatch h a s))
         \<and> savedBuilds (dispatch h a s) ! i = savedBuilds s ! i"
  using assms
  by (cases a)
     (simp_all add: handleSaveBuild_def handleLoadBuild_def handleAddStore_def
        handleRemoveStore_def handleStoreChange_def handleAddPart_def handleDeletePart_def
        handlePriceInputChange_def handlePriceUpdate_def toggleStock_def setPriceAlert_def
        nth_append split: option.splits)

lemma run_keeps_builds:
  assumes "list_all (\<lambda>e. \<not> deletesBuild (snd e)) es" and "i < length (savedBuilds s)"
  shows "i < length (savedBuilds (run es s))
         \<and> savedBuilds (run es s) ! i = savedBuilds s ! i"
  using assms
proof (induction es arbitrary: s)
  case Nil
  then show ?case by simp
next
  case (Cons e es)
  have d: "\<not> deletesBuild (snd e)" and r: "list_all (\<lambda>e. \<not> deletesBuild (snd e)) es"
    using Cons.prems(1) by simp_all
  have k: "i < length (savedBuilds (dispatch (fst e) (snd e) s))
           \<and> savedBuilds (dispatch (fst e) (snd e) s) ! i = savedBuilds s ! i"
    using dispatch_keeps_builds [OF d Cons.prems(2)] .
  show ?case
    using Cons.IH [OF r, of "dispatch (fst e) (snd e) s"] k by simp
qed

text \<open>
  C3. When the build name has a character that is not white space, saving appends one
  SavedBuild that holds the catalog of that moment, and loading it gives back that
  catalog. The snapshot is a value of its own: after any further actions that delete
  no build (adding, deleting and editing parts, editing the form, loading and saving
  builds), the build at the same position still holds the catalog as it was when it
  was saved, and loading it then gives that catalog back.
\<close>

theorem save_then_load_roundtrip:
  assumes "\<not> list_all is_white (buildName s)"
    and "list_all (\<lambda>e. \<not> deletesBuild (snd e)) es"
  shows "savedBuilds (handleSaveBuild h s)
           = savedBuilds s @ [\<lparr>build_id = now h, build_name = buildName s,
                                 build_date = today h, build_parts = parts s\<rparr>]
         \<and> parts (handleLoadBuild (last (savedBuilds (handleSaveBuild h s))) (handleSaveBuild h s))
             = parts s
         \<and> build_parts (savedBuilds (run es (handleSaveBuild h s)) ! length (savedBuilds s))
             = parts s
         \<and> parts (dispatch h' (LoadBuild (length (savedBuilds s))) (run es (handleSaveBuild h s)))
             = parts s"
proof -
  let ?b = "\<lparr>build_id = now h, build_name = buildName s, build_date = today h,
              build_parts = parts s\<rparr>"
  let ?s1 = "handleSaveBuild h s"
  have t: "trim (buildName s) \<noteq> []"
    using assms(1) by (simp add: trim_empty_iff)
  have sb: "savedBuilds ?s1 = savedBuilds s @ [?b]"
    using t by (simp add: handleSaveBuild_def)
  have ld: "parts (handleLoadBuild (last (savedBuilds ?s1)) ?s1) = parts s"
    using sb by (simp add: handleLoadBuild_def)
  have i: "length (savedBuilds s) < length (savedBuilds ?s1)"
    using sb by simp
  have k: "length (savedBuilds s) < length (savedBuilds (run es ?s1))
           \<and> savedBuilds (run es ?s1) ! length (savedBuilds s) = savedBuilds ?s1 ! length (savedBuilds s)"
    using run_keeps_builds [OF assms(2) i] .
  have n: "savedBuilds ?s1 ! length (savedBuilds s) = ?b"
    using sb by simp
  have later: "build_parts (savedBuilds (run es ?s1) ! length (savedBuilds s)) = parts s"
    using k n by simp
  have load_later: "parts (dispatch h' (LoadBuild (length (savedBuilds s))) (run es ?s1)) = parts s"
    using k later by (simp add: handleLoadBuild_def)
  show ?thesis using sb ld later load_later by simp
qed

theorem save_then_load_roundtrip_witness:
  "\<not> list_all is_white (buildName demoState)
   \<and> list_all (\<lambda>e. \<not> deletesBuild (snd e)) [(demoHost, DeletePart (str ''1''))]
   \<and> parts (run [(demoHost, DeletePart (str ''1''))] (handleSaveBuild demoHost demoState)) = []
   \<and> parts (dispatch demoHost (LoadBuild 2)
              (run [(demoHost, DeletePart (str ''1''))] (handleSaveBuild demoHost demoState)))
       = [ryzen]"
proof -
  have a: "\<not> list_all is_white (buildName demoState)"
    by (simp add: demoState_def is_white_def str_def)
  have b: "list_all (\<lambda>e. \<not> deletesBuild (snd e)) [(demoHost, DeletePart (str ''1''))]"
    by simp
  have c: "parts (run [(demoHost, DeletePart (str ''1''))] (handleSaveBuild demoHost demoState)) = []"
    using a by (simp add: handleSaveBuild_def trim_empty_iff handleDeletePart_def demoState_def ryzen_def)
  have d: "length (savedBuilds demoState) = 2" "parts demoState = [ryzen]"
    by (simp_all add: demoState_def)
  show ?thesis
    using save_then_load_roundtrip [OF a b, of demoHost demoHost] a c d by simp
qed

text \<open>
  C5. A save attempt whose build name is empty or consists only of white space changes
  nothing: the state returned is the state given, so no SavedBuild is created and the
  saved-builds list, the persisted storage value and the catalog stay as they were.
\<close>

theorem save_blank_name_aborts:
  "list_all is_white (buildName s) \<Longrightarrow> handleSaveBuild h s = s"
  by (simp add: handleSaveBuild_def trim_empty_iff)

theorem save_blank_name_aborts_witness:
  "list_all is_white (buildName (demoState\<lparr>buildName := str ''  ''\<rparr>))
   \<and> handleSaveBuild demoHost (demoState\<lparr>buildName := str ''  ''\<rparr>)
       = demoState\<lparr>buildName := str ''  ''\<rparr>"
  using save_blank_name_aborts [of "demoState\<lparr>buildName := str ''  ''\<rparr>" demoHost]
  by (simp add: is_white_def str_def)

lemma filter_drop_unique:
  assumes "distinct (map f xs)" and "i < length xs"
  shows "filter (\<lambda>x. f x \<noteq> f (xs ! i)) xs = take i xs @ drop (Suc i) xs"
  using assms
proof (induction xs arbitrary: i)
  case Nil
  then show ?case by simp
next
  case (Cons a xs)
  show ?case
  proof (cases i)
    case 0
    have "\<forall>x \<in> set xs. f x \<noteq> f a" using Cons.prems(1) by (auto simp: image_iff)
    then have "filter (\<lambda>x. f x \<noteq> f a) xs = xs" by (simp add: filter_id_conv)
    with 0 show ?thesis by simp
  next
    case (Suc j)
    then have j: "j < length xs" using Cons.prems(2) by simp
    then have "xs ! j \<in> set xs" by simp
    then have "f a \<noteq> f (xs ! j)" using Cons.prems(1) by (auto simp: image_iff)
    moreover have "filter (\<lambda>x. f x \<noteq> f (xs ! j)) xs = take j xs @ drop (Suc j) xs"
      using Cons.IH [OF _ j] Cons.prems(1) by simp
    ultimately show ?thesis using Suc by simp
  qed
qed

text \<open>
  C6. When the ids of the saved builds are pairwise distinct, deleting the id found at
  position \<open>i\<close> removes exactly that build: what is left is the list before
  \<open>i\<close> followed by the list after \<open>i\<close>, in the same order and with the same
  content.
\<close>

theorem delete_build_removes_one:
  assumes "distinct (map build_id (savedBuilds s))"
    and "i < length (savedBuilds s)"
    and "build_id (savedBuilds s ! i) = buildId"
  shows "savedBuilds (handleDeleteBuild h buildId s)
         = take i (savedBuilds s) @ drop (Suc i) (savedBuilds s)"
  using filter_drop_unique [OF assms(1) assms(2)] assms(3)
  by (simp add: handleDeleteBuild_def)

theorem delete_build_removes_one_witness:
  "distinct (map build_id (savedBuilds demoState))
   \<and> 0 < length (savedBuilds demoState)
   \<and> build_id (savedBuilds demoState ! 0) = str ''1''
   \<and> savedBuilds (handleDeleteBuild demoHost (str ''1'') demoState) = [demoBuild (str ''2'')]"
  using delete_build_removes_one [of demoState 0 "str ''1''" demoHost]
  by (simp add: demoState_def demoBuild_def str_def)

section \<open>Sorting by availability (C7)\<close>

text \<open>
  The availability comparator asks only whether its second argument is available.
  For such a comparator every search of the sort ends exactly between the elements
  with the property and those without: a run is grouped when it is made, binary
  insertion keeps it grouped, and the merge of two grouped runs A and B is the
  available elements of A, then B, then the rest of A.
\<close>

lemma availability_order:
  "order_negative (compareParts h ByAvailability) x y = (\<not> available y)"
  by (simp add: order_negative_def compareParts_def getAvailabilityStatus_def available_def
      list_ex_iff js_lt_def)

lemma grouped_sandwich:
  assumes "\<forall>y \<in> set ys. P y" and "grouped P bs" and "\<forall>z \<in> set zs. \<not> P z"
  shows "grouped P (ys @ bs @ zs)"
proof -
  have "sorted_wrt (\<lambda>a b. P b \<longrightarrow> P a) ys"
    using assms(1) by (induction ys) auto
  moreover have "sorted_wrt (\<lambda>a b. P b \<longrightarrow> P a) zs"
    using assms(3) by (induction zs) auto
  ultimately show ?thesis
    using assms by (auto simp: grouped_def sorted_wrt_append)
qed

lemma grouped_nth:
  assumes "grouped P xs" and "i < length xs"
  shows "P (xs ! i) = (i < length (takeWhile P xs))"
proof (cases "i < length (takeWhile P xs)")
  case True
  then have "xs ! i = takeWhile P xs ! i"
    by (simp add: takeWhile_nth)
  moreover have "takeWhile P xs ! i \<in> set (takeWhile P xs)"
    using True by simp
  ultimately have "P (xs ! i)"
    by (metis set_takeWhileD)
  then show ?thesis using True by simp
next
  case False
  let ?j = "length (takeWhile P xs)"
  have j: "?j \<le> i" using False by simp
  then have jl: "?j < length xs" using assms(2) by simp
  have nj: "\<not> P (xs ! ?j)" using jl by (rule nth_length_takeWhile)
  have "\<not> P (xs ! i)"
  proof (cases "?j = i")
    case True
    then show ?thesis using nj by simp
  next
    case False
    then have "?j < i" using j by simp
    then have "P (xs ! i) \<longrightarrow> P (xs ! ?j)"
      using assms by (simp add: grouped_def sorted_wrt_iff_nth_less)
    then show ?thesis using nj by blast
  qed
  then show ?thesis using False by simp
qed

lemma grouped_take_drop:
  assumes "grouped P xs"
  shows "take (length (takeWhile P xs)) xs = takeWhile P xs"
    and "drop (length (takeWhile P xs)) xs = dropWhile P xs"
    and "\<forall>z \<in> set (dropWhile P xs). \<not> P z"
proof -
  show t: "take (length (takeWhile P xs)) xs = takeWhile P xs"
    by (metis append_eq_conv_conj takeWhile_dropWhile_id)
  show d: "drop (length (takeWhile P xs)) xs = dropWhile P xs"
    by (metis append_eq_conv_conj takeWhile_dropWhile_id)
  show "\<forall>z \<in> set (dropWhile P xs). \<not> P z"
  proof
    fix z assume "z \<in> set (dropWhile P xs)"
    then have "z \<in> set (drop (length (takeWhile P xs)) xs)" using d by simp
    then obtain i where i: "i < length (drop (length (takeWhile P xs)) xs)"
        "z = drop (length (takeWhile P xs)) xs ! i"
      by (auto simp: in_set_conv_nth)
    then have "z = xs ! (length (takeWhile P xs) + i)"
      and "length (takeWhile P xs) + i < length xs"
      by simp_all
    then show "\<not> P z" using grouped_nth [OF assms, of "length (takeWhile P xs) + i"] by simp
  qed
qed

lemma gallop_search_boundary:
  assumes "lo \<le> b" and "b \<le> hi" and "\<And>m. lo \<le> m \<Longrightarrow> m < hi \<Longrightarrow> after m = (m < b)"
  shows "gallop_search after lo hi = b"
  using assms
proof (induction after lo hi rule: gallop_search.induct)
  case (1 after lastOfs offset)
  let ?m = "lastOfs + (offset - lastOfs) div 2"
  show ?case
  proof (cases "lastOfs < offset")
    case False
    then show ?thesis using "1.prems"(1,2) by (subst gallop_search.simps) simp
  next
    case True
    then have m: "lastOfs \<le> ?m" "?m < offset" by auto
    show ?thesis
    proof (cases "after ?m")
      case a: True
      then have "?m < b" using "1.prems"(3) [OF m] by simp
      then have "?m + 1 \<le> b" by simp
      moreover have "\<And>k. ?m + 1 \<le> k \<Longrightarrow> k < offset \<Longrightarrow> after k = (k < b)"
        using "1.prems"(3) by simp
      ultimately have "gallop_search after (?m + 1) offset = b"
        using "1.IH"(1) [OF True a] "1.prems"(2) by blast
      then show ?thesis using True a by (subst gallop_search.simps) simp
    next
      case a: False
      then have "b \<le> ?m" using "1.prems"(3) [OF m] by simp
      moreover have "\<And>k. lastOfs \<le> k \<Longrightarrow> k < ?m \<Longrightarrow> after k = (k < b)"
        using "1.prems"(3) m(2) by simp
      ultimately have "gallop_search after lastOfs ?m = b"
        using "1.IH"(2) [OF True a] "1.prems"(1) by blast
      then show ?thesis using True a by (subst gallop_search.simps) simp
    qed
  qed
qed

lemma gallop_loop_result:
  assumes "lastOfs < offset"
  shows "fst (gallop_loop stop maxOfs lastOfs offset) < snd (gallop_loop stop maxOfs lastOfs offset)
    \<and> (fst (gallop_loop stop maxOfs lastOfs offset) = lastOfs
        \<or> fst (gallop_loop stop maxOfs lastOfs offset) < maxOfs
          \<and> \<not> stop (fst (gallop_loop stop maxOfs lastOfs offset)))
    \<and> (snd (gallop_loop stop maxOfs lastOfs offset) < maxOfs
        \<longrightarrow> stop (snd (gallop_loop stop maxOfs lastOfs offset)))"
  using assms
proof (induction stop maxOfs lastOfs offset rule: gallop_loop.induct)
  case (1 stop maxOfs lastOfs offset)
  show ?case
  proof (cases "offset < maxOfs \<and> \<not> stop offset")
    case False
    then have "gallop_loop stop maxOfs lastOfs offset = (lastOfs, offset)"
      by (subst gallop_loop.simps) auto
    then show ?thesis using False "1.prems" by auto
  next
    case True
    then have eq: "gallop_loop stop maxOfs lastOfs offset
                   = gallop_loop stop maxOfs offset (2 * offset + 1)"
      by (subst gallop_loop.simps) simp
    have "offset < 2 * offset + 1" by simp
    then have ih: "fst (gallop_loop stop maxOfs offset (2 * offset + 1))
          < snd (gallop_loop stop maxOfs offset (2 * offset + 1))
      \<and> (fst (gallop_loop stop maxOfs offset (2 * offset + 1)) = offset
          \<or> fst (gallop_loop stop maxOfs offset (2 * offset + 1)) < maxOfs
            \<and> \<not> stop (fst (gallop_loop stop maxOfs offset (2 * offset + 1))))
      \<and> (snd (gallop_loop stop maxOfs offset (2 * offset + 1)) < maxOfs
          \<longrightarrow> stop (snd (gallop_loop stop maxOfs offset (2 * offset + 1))))"
      using "1.IH" True by simp
    show ?thesis
      unfolding eq using ih True by auto
  qed
qed

lemma gallop_right_boundary:
  assumes neg: "\<And>x y. order_negative cmp x y = (\<not> P y)"
    and "grouped P xs" and "hint < length xs"
  shows "gallop_right cmp key xs hint = length (takeWhile P xs)"
proof -
  let ?b = "length (takeWhile P xs)"
  have nth: "P (xs ! i) = (i < ?b)" if "i < length xs" for i
    using assms(2) that by (rule grouped_nth)
  have b: "?b \<le> length xs" by (simp add: length_takeWhile_le)
  show ?thesis
  proof (cases "P (xs ! hint)")
    case False
    let ?stop = "\<lambda>offset. P (xs ! (hint - offset))"
    obtain lst ofs where lp: "gallop_loop ?stop (hint + 1) 0 1 = (lst, ofs)"
      by fastforce
    have r: "lst < ofs \<and> (lst = 0 \<or> lst < hint + 1 \<and> \<not> ?stop lst) \<and> (ofs < hint + 1 \<longrightarrow> ?stop ofs)"
      using gallop_loop_result [of 0 1 ?stop "hint + 1"] lp by simp
    have "\<not> P (xs ! (hint - lst))" using r False by auto
    moreover have "hint - lst < length xs" using assms(3) by simp
    ultimately have hi: "?b \<le> hint - lst" using nth by force
    have lower: "hint + 1 - min ofs (hint + 1) \<le> ?b"
    proof (cases "ofs < hint + 1")
      case True
      then have "P (xs ! (hint - ofs))" using r by simp
      moreover have "hint - ofs < length xs" using assms(3) by simp
      ultimately have "hint - ofs < ?b" using nth by simp
      then show ?thesis using True by simp
    next
      case False
      then show ?thesis by simp
    qed
    have "gallop_search (\<lambda>m. P (xs ! m)) (hint + 1 - min ofs (hint + 1)) (hint - lst) = ?b"
      using lower hi
    proof (rule gallop_search_boundary)
      fix m assume "m < hint - lst"
      then have "m < length xs" using assms(3) by simp
      then show "P (xs ! m) = (m < ?b)" by (rule nth)
    qed
    then show ?thesis using False lp by (simp add: gallop_right_def neg)
  next
    case True
    let ?stop = "\<lambda>offset. \<not> P (xs ! (hint + offset))"
    obtain lst ofs where lp: "gallop_loop ?stop (length xs - hint) 0 1 = (lst, ofs)"
      by fastforce
    have r: "lst < ofs \<and> (lst = 0 \<or> lst < length xs - hint \<and> \<not> ?stop lst)
             \<and> (ofs < length xs - hint \<longrightarrow> ?stop ofs)"
      using gallop_loop_result [of 0 1 ?stop "length xs - hint"] lp by simp
    have lst: "lst < length xs - hint" using r assms(3) by auto
    have "P (xs ! (hint + lst))" using r True by auto
    then have "hint + lst < ?b" using nth [of "hint + lst"] lst by simp
    then have lower: "lst + hint + 1 \<le> ?b" by simp
    have hi: "?b \<le> min ofs (length xs - hint) + hint"
    proof (cases "ofs < length xs - hint")
      case True
      then have "\<not> P (xs ! (hint + ofs))" using r by simp
      then have "?b \<le> hint + ofs" using nth [of "hint + ofs"] True by simp
      then show ?thesis using True by simp
    next
      case False
      then show ?thesis using b assms(3) by simp
    qed
    have "gallop_search (\<lambda>m. P (xs ! m)) (lst + hint + 1) (min ofs (length xs - hint) + hint) = ?b"
      using lower hi
    proof (rule gallop_search_boundary)
      fix m assume "m < min ofs (length xs - hint) + hint"
      moreover have "min ofs (length xs - hint) + hint \<le> length xs" using assms(3) by simp
      ultimately have "m < length xs" by (rule less_le_trans)
      then show "P (xs ! m) = (m < ?b)" by (rule nth)
    qed
    then show ?thesis using True lp by (simp add: gallop_right_def neg)
  qed
qed

lemma gallop_loop_never_stops:
  assumes "gallop_loop (\<lambda>offset. False) maxOfs 0 1 = (lst, ofs)" and "0 < maxOfs"
  shows "lst < maxOfs" and "maxOfs \<le> ofs"
proof -
  have r: "lst < ofs \<and> (lst = 0 \<or> lst < maxOfs \<and> \<not> False) \<and> (ofs < maxOfs \<longrightarrow> False)"
    using gallop_loop_result [of 0 1 "\<lambda>offset. False" maxOfs] assms(1) by simp
  show "lst < maxOfs" using r assms(2) by auto
  show "maxOfs \<le> ofs" using r by auto
qed

lemma gallop_left_all_or_nothing:
  assumes neg: "\<And>x y. order_negative cmp x y = (\<not> P y)" and "hint < length xs"
  shows "gallop_left cmp key xs hint = (if P key then 0 else length xs)"
proof (cases "P key")
  case True
  obtain lst ofs where lp: "gallop_loop (\<lambda>offset. False) (hint + 1) 0 1 = (lst, ofs)"
    by fastforce
  have ofs: "hint + 1 \<le> ofs" using gallop_loop_never_stops(2) [OF lp] by simp
  have "gallop_search (\<lambda>m. False) 0 (hint - lst) = 0"
    by (rule gallop_search_boundary) simp_all
  then show ?thesis using True lp ofs by (simp add: gallop_left_def neg min_absorb2)
next
  case False
  obtain lst ofs where lp: "gallop_loop (\<lambda>offset. False) (length xs - hint) 0 1 = (lst, ofs)"
    by fastforce
  have lst: "lst < length xs - hint" and ofs: "length xs - hint \<le> ofs"
    using gallop_loop_never_stops [OF lp] assms(2) by simp_all
  have "gallop_search (\<lambda>m. True) (lst + hint + 1) (length xs) = length xs"
    using lst by (intro gallop_search_boundary) simp_all
  then show ?thesis using False lp ofs assms(2) by (simp add: gallop_left_def neg min_absorb2)
qed

lemma grouped_none:
  assumes "\<forall>a \<in> set as. \<not> P a"
  shows "grouped P as" and "takeWhile P as = []"
proof -
  show "grouped P as"
    using grouped_sandwich [of "[]" P "[]" as] assms by (simp add: grouped_def)
  show "takeWhile P as = []"
    using assms by (cases as) simp_all
qed

lemma gallop_right_none:
  assumes "\<And>x y. order_negative cmp x y = (\<not> P y)" and "\<forall>a \<in> set as. \<not> P a"
    and "hint < length as"
  shows "gallop_right cmp key as hint = 0"
  using gallop_right_boundary [OF assms(1) grouped_none(1) [OF assms(2)] assms(3)]
    grouped_none(2) [OF assms(2)]
  by simp

lemma merge_low_gallop_step_unavailable:
  assumes neg: "\<And>x y. order_negative cmp x y = (\<not> P y)"
    and un: "\<forall>a \<in> set as. \<not> P a" and "as \<noteq> []" and "bs \<noteq> []"
  shows "merge_low_gallop_step cmp out as bs = Finished (out @ bs @ as)"
proof -
  obtain b bs' where bs: "bs = b # bs'" using assms(4) by (cases bs) auto
  have a: "gallop_right cmp b as 0 = 0"
    using neg un by (rule gallop_right_none) (simp add: assms(3))
  show ?thesis
  proof (cases "bs' = []")
    case True
    then show ?thesis using a bs by (simp add: merge_low_gallop_step_def)
  next
    case False
    have "\<not> P (hd as)" using un assms(3) by simp
    moreover have "0 < length bs'" using False by simp
    ultimately have b: "gallop_left cmp (hd as) bs' 0 = length bs'"
      using gallop_left_all_or_nothing [OF neg, of 0 bs' "hd as"] by simp
    show ?thesis using a b bs False by (simp add: merge_low_gallop_step_def)
  qed
qed

lemma merge_low_gallop_unavailable:
  assumes "\<And>x y. order_negative cmp x y = (\<not> P y)"
    and "\<forall>a \<in> set as. \<not> P a" and "1 < length as" and "bs \<noteq> []"
  shows "merge_low_gallop cmp mg nA nB True out as bs = Some (out @ bs @ as, max 1 (mg - 1))"
proof -
  have "as \<noteq> []" using assms(3) by auto
  then have "merge_low_gallop_step cmp out as bs = Finished (out @ bs @ as)"
    using assms(1,2,4) merge_low_gallop_step_unavailable by metis
  then show ?thesis
    using assms(3,4) by (subst merge_low_gallop.simps) simp
qed

lemma merge_low_linear_unavailable:
  assumes neg: "\<And>x y. order_negative cmp x y = (\<not> P y)"
    and un: "\<forall>a \<in> set as. \<not> P a" and len: "1 < length as" and "bs \<noteq> []"
  shows "\<exists>mg'. merge_low_linear cmp mg nA nB out as bs = Some (out @ bs @ as, mg')"
  using assms(4)
proof (induction bs arbitrary: out nA nB)
  case Nil
  then show ?case by simp
next
  case (Cons b bs)
  have "as \<noteq> []" using len by auto
  then have w: "order_negative cmp b (hd as)" using neg un by simp
  show ?case
  proof (cases "bs = []")
    case True
    then show ?thesis using w len by (subst merge_low_linear.simps) simp
  next
    case False
    show ?thesis
    proof (cases "mg \<le> nB + 1")
      case True
      have "merge_low_gallop cmp (mg + 1) 0 (nB + 1) True (out @ [b]) as bs
            = Some ((out @ [b]) @ bs @ as, max 1 (mg + 1 - 1))"
        using neg un len False by (rule merge_low_gallop_unavailable)
      then show ?thesis using w len False True by (subst merge_low_linear.simps) simp
    next
      case g: False
      obtain mg' where "merge_low_linear cmp mg 0 (nB + 1) (out @ [b]) as bs
                        = Some ((out @ [b]) @ bs @ as, mg')"
        using Cons.IH [OF False] by blast
      then show ?thesis using w len False g by (subst merge_low_linear.simps) simp
    qed
  qed
qed

lemma merge_low_unavailable:
  assumes neg: "\<And>x y. order_negative cmp x y = (\<not> P y)"
    and un: "\<forall>a \<in> set as. \<not> P a" and "as \<noteq> []" and "bs \<noteq> []"
  shows "\<exists>mg'. merge_low cmp mg as bs = Some (bs @ as, mg')"
proof -
  obtain b bs' where bs: "bs = b # bs'" using assms(4) by (cases bs) auto
  show ?thesis
  proof (cases "bs' = [] \<or> length as = 1")
    case True
    then show ?thesis using assms(3) bs by (auto simp: merge_low_def)
  next
    case False
    then have "1 < length as" using assms(3) by (cases as) auto
    then obtain mg' where "merge_low_linear cmp mg 0 0 [b] as bs' = Some ([b] @ bs' @ as, mg')"
      using merge_low_linear_unavailable [OF neg un _ , of bs' mg 0 0 "[b]"] False
      by blast
    then show ?thesis using False assms(3) bs by (simp add: merge_low_def)
  qed
qed

lemma merge_high_gallop_unavailable:
  assumes "\<And>x y. order_negative cmp x y = (\<not> P y)"
    and "\<forall>a \<in> set as. \<not> P a" and "as \<noteq> []" and "1 < length bs"
  shows "merge_high_gallop cmp mg nA nB True out as bs = Some (bs @ as @ out, max 1 (mg - 1))"
proof -
  have "gallop_right cmp (last bs) as (length as - 1) = 0"
    using assms(1,2) by (rule gallop_right_none) (simp add: assms(3))
  then have "merge_high_gallop_step cmp out as bs = Finished (bs @ as @ out)"
    using assms(3) by (simp add: merge_high_gallop_step_def)
  then show ?thesis
    using assms(3,4) by (subst merge_high_gallop.simps) simp
qed

lemma merge_high_linear_unavailable:
  assumes neg: "\<And>x y. order_negative cmp x y = (\<not> P y)"
    and len: "1 < length bs" and "\<forall>a \<in> set as. \<not> P a" and "as \<noteq> []"
  shows "\<exists>mg'. merge_high_linear cmp mg nA nB out as bs = Some (bs @ as @ out, mg')"
  using assms(3,4)
proof (induction as arbitrary: out nA nB rule: rev_induct)
  case Nil
  then show ?case by simp
next
  case (snoc a as)
  have w: "order_negative cmp (last bs) a" using neg snoc.prems(1) by simp
  have un: "\<forall>a \<in> set as. \<not> P a" using snoc.prems(1) by simp
  show ?case
  proof (cases "as = []")
    case True
    then show ?thesis using w len by (subst merge_high_linear.simps) simp
  next
    case False
    show ?thesis
    proof (cases "mg \<le> nA + 1")
      case True
      have "merge_high_gallop cmp (mg + 1) (nA + 1) 0 True ([a] @ out) as bs
            = Some (bs @ as @ [a] @ out, max 1 (mg + 1 - 1))"
        using neg un False len by (rule merge_high_gallop_unavailable)
      then show ?thesis using w len False True by (subst merge_high_linear.simps) simp
    next
      case g: False
      obtain mg' where "merge_high_linear cmp mg (nA + 1) 0 ([a] @ out) as bs
                        = Some (bs @ as @ [a] @ out, mg')"
        using snoc.IH [OF un False] by blast
      then show ?thesis using w len False g by (subst merge_high_linear.simps) simp
    qed
  qed
qed

lemma merge_high_unavailable:
  assumes neg: "\<And>x y. order_negative cmp x y = (\<not> P y)"
    and un: "\<forall>a \<in> set as. \<not> P a" and "as \<noteq> []" and "bs \<noteq> []"
  shows "\<exists>mg'. merge_high cmp mg as bs = Some (bs @ as, mg')"
proof -
  obtain a as' where as: "as = as' @ [a]" using assms(3) by (cases as rule: rev_cases) auto
  show ?thesis
  proof (cases "as' = [] \<or> length bs = 1")
    case True
    then show ?thesis using assms(4) as by (auto simp: merge_high_def)
  next
    case False
    then have "1 < length bs" using assms(4) by (cases bs) auto
    moreover have "\<forall>a \<in> set as'. \<not> P a" using un as by simp
    ultimately obtain mg' where "merge_high_linear cmp mg 0 0 [a] as' bs
                                 = Some (bs @ as' @ [a], mg')"
      using merge_high_linear_unavailable [OF neg, of bs as' mg 0 0 "[a]"] False
      by blast
    then show ?thesis using False assms(4) as by (simp add: merge_high_def)
  qed
qed

lemma merge_at_unfold:
  assumes "as \<noteq> []" and "bs \<noteq> []"
    and "gallop_right cmp (hd bs) as 0 = k" and "length as - k \<noteq> 0"
    and "gallop_left cmp (last as) bs (length bs - 1) = n" and "n \<noteq> 0"
  shows "merge_at cmp mg as bs
         = map_option (\<lambda>(merged, mg). (take k as @ merged @ drop n bs, mg))
             (if length as - k \<le> n
              then merge_low cmp mg (drop k as) (take n bs)
              else merge_high cmp mg (drop k as) (take n bs))"
  using assms by (simp add: merge_at_def Let_def)

lemma merge_at_grouped:
  assumes neg: "\<And>x y. order_negative cmp x y = (\<not> P y)"
    and "grouped P as" and "as \<noteq> []" and "bs \<noteq> []"
  shows "\<exists>mg'. merge_at cmp mg as bs = Some (takeWhile P as @ bs @ dropWhile P as, mg')"
proof -
  let ?k = "length (takeWhile P as)"
  have k: "gallop_right cmp (hd bs) as 0 = ?k"
    using neg assms(2) by (rule gallop_right_boundary) (simp add: assms(3))
  have t: "take ?k as = takeWhile P as" and d: "drop ?k as = dropWhile P as"
    and un: "\<forall>z \<in> set (dropWhile P as). \<not> P z"
    using grouped_take_drop [OF assms(2)] by simp_all
  have len: "length as - ?k = length (dropWhile P as)"
    using d by (metis length_drop)
  show ?thesis
  proof (cases "dropWhile P as = []")
    case True
    then have "takeWhile P as = as"
      by (metis append_Nil2 takeWhile_dropWhile_id)
    then have e: "takeWhile P as @ bs @ dropWhile P as = as @ bs"
      using True by simp
    have z: "length as - gallop_right cmp (hd bs) as 0 = 0"
      using k len True by simp
    show ?thesis
      unfolding merge_at_def Let_def e using z assms(3,4) by simp
  next
    case False
    have "last as = last (takeWhile P as @ dropWhile P as)" by simp
    also have "\<dots> = last (dropWhile P as)" using False by (rule last_appendR)
    finally have "last as \<in> set (dropWhile P as)" using False by simp
    then have "\<not> P (last as)" using un by blast
    moreover have "length bs - 1 < length bs" using assms(4) by (cases bs) simp_all
    ultimately have b: "gallop_left cmp (last as) bs (length bs - 1) = length bs"
      using gallop_left_all_or_nothing [OF neg, of "length bs - 1" bs "last as"] by simp
    have nz: "length as - ?k \<noteq> 0" "length bs \<noteq> 0"
      using False assms(4) len by simp_all
    obtain lo where lo: "merge_low cmp mg (dropWhile P as) bs = Some (bs @ dropWhile P as, lo)"
      using merge_low_unavailable [OF neg un False assms(4)] by blast
    obtain hi where hi: "merge_high cmp mg (dropWhile P as) bs = Some (bs @ dropWhile P as, hi)"
      using merge_high_unavailable [OF neg un False assms(4)] by blast
    have "merge_at cmp mg as bs
          = map_option (\<lambda>(merged, mg). (take ?k as @ merged @ drop (length bs) bs, mg))
              (if length as - ?k \<le> length bs
               then merge_low cmp mg (drop ?k as) (take (length bs) bs)
               else merge_high cmp mg (drop ?k as) (take (length bs) bs))"
      using assms(3,4) k nz(1) b nz(2) by (rule merge_at_unfold)
    also have "\<dots> = Some (takeWhile P as @ bs @ dropWhile P as,
                          if length as - ?k \<le> length bs then lo else hi)"
      by (simp add: t d lo hi)
    finally show ?thesis by blast
  qed
qed

lemma merge_at_keeps_groups:
  assumes neg: "\<And>x y. order_negative cmp x y = (\<not> P y)"
    and "as \<noteq> [] \<and> grouped P as" and "bs \<noteq> [] \<and> grouped P bs"
  shows "\<exists>merged mg'. merge_at cmp mg as bs = Some (merged, mg')
           \<and> merged \<noteq> [] \<and> grouped P merged \<and> mset merged = mset as + mset bs"
proof -
  obtain mg' where m: "merge_at cmp mg as bs = Some (takeWhile P as @ bs @ dropWhile P as, mg')"
    using merge_at_grouped [OF neg, of as bs mg] assms(2,3) by blast
  have "\<forall>y \<in> set (takeWhile P as). P y" by (auto dest: set_takeWhileD)
  moreover have "\<forall>z \<in> set (dropWhile P as). \<not> P z"
    using grouped_take_drop(3) assms(2) by blast
  ultimately have "grouped P (takeWhile P as @ bs @ dropWhile P as)"
    using assms(3) by (intro grouped_sandwich) simp_all
  moreover have "mset (takeWhile P as @ bs @ dropWhile P as) = mset as + mset bs"
  proof -
    have "mset (takeWhile P as) + mset (dropWhile P as) = mset (takeWhile P as @ dropWhile P as)"
      by (simp only: mset_append)
    then have "mset (takeWhile P as) + mset (dropWhile P as) = mset as"
      by (simp only: takeWhile_dropWhile_id)
    then show ?thesis by (simp add: ac_simps)
  qed
  ultimately show ?thesis using m assms(3) by simp
qed

lemma merge_collapse_keeps_groups:
  assumes neg: "\<And>x y. order_negative cmp x y = (\<not> P y)"
    and "\<forall>r \<in> set pending. r \<noteq> [] \<and> grouped P r"
  shows "\<exists>pending' mg'. merge_collapse cmp mg pending = Some (pending', mg')
           \<and> (\<forall>r \<in> set pending'. r \<noteq> [] \<and> grouped P r)
           \<and> mset (concat pending') = mset (concat pending)"
  using assms(2)
proof (induction "length pending" arbitrary: pending mg rule: less_induct)
  case less
  note ok = less.prems
  have step: "\<exists>pending' mg'. (case merge_at cmp mg as bs of
                  None \<Rightarrow> None
                | Some (merged, mg) \<Rightarrow> merge_collapse cmp mg (c merged))
               = Some (pending', mg')
             \<and> (\<forall>r \<in> set pending'. r \<noteq> [] \<and> grouped P r)
             \<and> mset (concat pending') = mset (concat pending)"
    if h1: "as \<noteq> [] \<and> grouped P as" and h2: "bs \<noteq> [] \<and> grouped P bs"
      and h3: "\<And>merged. merged \<noteq> [] \<and> grouped P merged
                 \<Longrightarrow> \<forall>r \<in> set (c merged). r \<noteq> [] \<and> grouped P r"
      and h4: "\<And>merged. length (c merged) < length pending"
      and h5: "\<And>merged. mset merged = mset as + mset bs
                 \<Longrightarrow> mset (concat (c merged)) = mset (concat pending)"
    for as bs c
  proof -
    obtain merged mg0 where m: "merge_at cmp mg as bs = Some (merged, mg0)"
        "merged \<noteq> [] \<and> grouped P merged" "mset merged = mset as + mset bs"
      using merge_at_keeps_groups [OF neg h1 h2, of mg] by blast
    obtain pending' mg' where
      r: "merge_collapse cmp mg0 (c merged) = Some (pending', mg')"
        "\<forall>r \<in> set pending'. r \<noteq> [] \<and> grouped P r"
        "mset (concat pending') = mset (concat (c merged))"
      using less.hyps [OF h4 h3 [OF m(2)]] by blast
    show ?thesis using m(1) r h5 [OF m(3)] by simp
  qed
  show ?case
  proof (cases pending)
    case Nil
    then show ?thesis by simp
  next
    case p1: (Cons x pending1)
    show ?thesis
    proof (cases pending1)
      case Nil
      then show ?thesis using p1 ok by simp
    next
      case p2: (Cons y pending2)
      show ?thesis
      proof (cases pending2)
        case Nil
        have "\<exists>pending' mg'. (case merge_at cmp mg y x of
                  None \<Rightarrow> None
                | Some (merged, mg) \<Rightarrow> merge_collapse cmp mg [merged])
               = Some (pending', mg')
             \<and> (\<forall>r \<in> set pending'. r \<noteq> [] \<and> grouped P r)
             \<and> mset (concat pending') = mset (concat pending)"
          using ok p1 p2 Nil step [of y x "\<lambda>merged. [merged]"] by simp
        then show ?thesis using p1 p2 Nil ok by simp
      next
        case p3: (Cons z pending3)
        have a: "\<exists>pending' mg'. (case merge_at cmp mg z y of
                  None \<Rightarrow> None
                | Some (merged, mg) \<Rightarrow> merge_collapse cmp mg (x # merged # pending3))
               = Some (pending', mg')
             \<and> (\<forall>r \<in> set pending'. r \<noteq> [] \<and> grouped P r)
             \<and> mset (concat pending') = mset (concat pending)"
          using ok p1 p2 p3 step [of z y "\<lambda>merged. x # merged # pending3"] by simp
        have b: "\<exists>pending' mg'. (case merge_at cmp mg y x of
                  None \<Rightarrow> None
                | Some (merged, mg) \<Rightarrow> merge_collapse cmp mg (merged # z # pending3))
               = Some (pending', mg')
             \<and> (\<forall>r \<in> set pending'. r \<noteq> [] \<and> grouped P r)
             \<and> mset (concat pending') = mset (concat pending)"
          using ok p1 p2 p3 step [of y x "\<lambda>merged. merged # z # pending3"] by simp
        show ?thesis using p1 p2 p3 ok a b by simp
      qed
    qed
  qed
qed

lemma merge_force_collapse_keeps_groups:
  assumes neg: "\<And>x y. order_negative cmp x y = (\<not> P y)"
    and "\<forall>r \<in> set pending. r \<noteq> [] \<and> grouped P r"
  shows "\<exists>pending' mg'. merge_force_collapse cmp mg pending = Some (pending', mg')
           \<and> length pending' \<le> 1
           \<and> (\<forall>r \<in> set pending'. r \<noteq> [] \<and> grouped P r)
           \<and> mset (concat pending') = mset (concat pending)"
  using assms(2)
proof (induction "length pending" arbitrary: pending mg rule: less_induct)
  case less
  note ok = less.prems
  have step: "\<exists>pending' mg'. (case merge_at cmp mg as bs of
                  None \<Rightarrow> None
                | Some (merged, mg) \<Rightarrow> merge_force_collapse cmp mg (c merged))
               = Some (pending', mg')
             \<and> length pending' \<le> 1
             \<and> (\<forall>r \<in> set pending'. r \<noteq> [] \<and> grouped P r)
             \<and> mset (concat pending') = mset (concat pending)"
    if h1: "as \<noteq> [] \<and> grouped P as" and h2: "bs \<noteq> [] \<and> grouped P bs"
      and h3: "\<And>merged. merged \<noteq> [] \<and> grouped P merged
                 \<Longrightarrow> \<forall>r \<in> set (c merged). r \<noteq> [] \<and> grouped P r"
      and h4: "\<And>merged. length (c merged) < length pending"
      and h5: "\<And>merged. mset merged = mset as + mset bs
                 \<Longrightarrow> mset (concat (c merged)) = mset (concat pending)"
    for as bs c
  proof -
    obtain merged mg0 where m: "merge_at cmp mg as bs = Some (merged, mg0)"
        "merged \<noteq> [] \<and> grouped P merged" "mset merged = mset as + mset bs"
      using merge_at_keeps_groups [OF neg h1 h2, of mg] by blast
    obtain pending' mg' where
      r: "merge_force_collapse cmp mg0 (c merged) = Some (pending', mg')"
        "length pending' \<le> 1"
        "\<forall>r \<in> set pending'. r \<noteq> [] \<and> grouped P r"
        "mset (concat pending') = mset (concat (c merged))"
      using less.hyps [OF h4 h3 [OF m(2)]] by blast
    show ?thesis using m(1) r h5 [OF m(3)] by simp
  qed
  show ?case
  proof (cases pending)
    case Nil
    then show ?thesis by simp
  next
    case p1: (Cons x pending1)
    show ?thesis
    proof (cases pending1)
      case Nil
      then show ?thesis using p1 ok by simp
    next
      case p2: (Cons y pending2)
      show ?thesis
      proof (cases pending2)
        case Nil
        have "\<exists>pending' mg'. (case merge_at cmp mg y x of
                  None \<Rightarrow> None
                | Some (merged, mg) \<Rightarrow> merge_force_collapse cmp mg [merged])
               = Some (pending', mg')
             \<and> length pending' \<le> 1
             \<and> (\<forall>r \<in> set pending'. r \<noteq> [] \<and> grouped P r)
             \<and> mset (concat pending') = mset (concat pending)"
          using ok p1 p2 Nil step [of y x "\<lambda>merged. [merged]"] by simp
        then show ?thesis using p1 p2 Nil ok by simp
      next
        case p3: (Cons z pending3)
        have a: "\<exists>pending' mg'. (case merge_at cmp mg z y of
                  None \<Rightarrow> None
                | Some (merged, mg) \<Rightarrow> merge_force_collapse cmp mg (x # merged # pending3))
               = Some (pending', mg')
             \<and> length pending' \<le> 1
             \<and> (\<forall>r \<in> set pending'. r \<noteq> [] \<and> grouped P r)
             \<and> mset (concat pending') = mset (concat pending)"
          using ok p1 p2 p3 step [of z y "\<lambda>merged. x # merged # pending3"] by simp
        have b: "\<exists>pending' mg'. (case merge_at cmp mg y x of
                  None \<Rightarrow> None
                | Some (merged, mg) \<Rightarrow> merge_force_collapse cmp mg (merged # z # pending3))
               = Some (pending', mg')
             \<and> length pending' \<le> 1
             \<and> (\<forall>r \<in> set pending'. r \<noteq> [] \<and> grouped P r)
             \<and> mset (concat pending') = mset (concat pending)"
          using ok p1 p2 p3 step [of y x "\<lambda>merged. merged # z # pending3"] by simp
        show ?thesis using p1 p2 p3 ok a b by simp
      qed
    qed
  qed
qed

lemma binary_search_boundary:
  assumes neg: "\<And>x y. order_negative cmp x y = (\<not> P y)"
    and "left \<le> b" and "b \<le> right"
    and "\<And>m. left \<le> m \<Longrightarrow> m < right \<Longrightarrow> P (xs ! m) = (m < b)"
  shows "binary_search cmp pivot xs left right = b"
  using assms
proof (induction cmp pivot xs left right rule: binary_search.induct)
  case (1 cmp pivot xs left right)
  note neg = "1.prems"(1)
  let ?mid = "left + (right - left) div 2"
  show ?case
  proof (cases "left < right")
    case False
    then show ?thesis using "1.prems"(2,3) by (subst binary_search.simps) simp
  next
    case True
    then have m: "left \<le> ?mid" "?mid < right" by auto
    show ?thesis
    proof (cases "order_negative cmp pivot (xs ! ?mid)")
      case a: True
      then have "\<not> P (xs ! ?mid)" by (simp add: neg)
      then have "b \<le> ?mid" using "1.prems"(4) [OF m] by simp
      moreover have "\<And>k. left \<le> k \<Longrightarrow> k < ?mid \<Longrightarrow> P (xs ! k) = (k < b)"
        using "1.prems"(4) m(2) by simp
      ultimately have "binary_search cmp pivot xs left ?mid = b"
        using "1.IH"(1) [OF True a neg] "1.prems"(2) by blast
      then show ?thesis using True a by (subst binary_search.simps) simp
    next
      case a: False
      then have "P (xs ! ?mid)" by (simp add: neg)
      then have "?mid < b" using "1.prems"(4) [OF m] by simp
      then have "?mid + 1 \<le> b" by simp
      moreover have "\<And>k. ?mid + 1 \<le> k \<Longrightarrow> k < right \<Longrightarrow> P (xs ! k) = (k < b)"
        using "1.prems"(4) by simp
      ultimately have "binary_search cmp pivot xs (?mid + 1) right = b"
        using "1.IH"(2) [OF True a neg] "1.prems"(3) by blast
      then show ?thesis using True a by (subst binary_search.simps) simp
    qed
  qed
qed

lemma insert_pivot_grouped:
  assumes neg: "\<And>x y. order_negative cmp x y = (\<not> P y)" and "grouped P xs"
  shows "grouped P (insert_pivot cmp xs pivot)"
proof -
  let ?b = "length (takeWhile P xs)"
  have "binary_search cmp pivot xs 0 (length xs) = ?b"
  proof (rule binary_search_boundary [OF neg])
    show "?b \<le> length xs" by (rule length_takeWhile_le)
    show "P (xs ! m) = (m < ?b)" if "m < length xs" for m
      using assms(2) that by (rule grouped_nth)
  qed simp
  then have "insert_pivot cmp xs pivot = takeWhile P xs @ [pivot] @ dropWhile P xs"
    using grouped_take_drop(1,2) [OF assms(2)] by (simp add: insert_pivot_def)
  moreover have "grouped P (takeWhile P xs @ [pivot] @ dropWhile P xs)"
  proof (rule grouped_sandwich)
    show "\<forall>y \<in> set (takeWhile P xs). P y" by (auto dest: set_takeWhileD)
    show "grouped P [pivot]" by (simp add: grouped_def)
    show "\<forall>z \<in> set (dropWhile P xs). \<not> P z" using assms(2) by (rule grouped_take_drop(3))
  qed
  ultimately show ?thesis by simp
qed

lemma binary_insertion_sort_grouped:
  assumes "\<And>x y. order_negative cmp x y = (\<not> P y)" and "grouped P xs"
  shows "grouped P (binary_insertion_sort cmp xs rest)"
  using assms(2)
proof (induction rest arbitrary: xs)
  case Nil
  then show ?case by simp
next
  case (Cons pivot rest)
  have "grouped P (insert_pivot cmp xs pivot)"
    using assms(1) Cons.prems by (rule insert_pivot_grouped)
  then show ?case using Cons.IH by simp
qed

lemma mset_insert_pivot: "mset (insert_pivot cmp xs pivot) = add_mset pivot (mset xs)"
proof -
  let ?k = "binary_search cmp pivot xs 0 (length xs)"
  have "mset (take ?k xs) + mset (drop ?k xs) = mset (take ?k xs @ drop ?k xs)"
    by (simp only: mset_append)
  also have "\<dots> = mset xs"
    by (simp only: append_take_drop_id)
  finally show ?thesis by (simp add: insert_pivot_def)
qed

lemma mset_binary_insertion_sort:
  "mset (binary_insertion_sort cmp xs rest) = mset xs + mset rest"
  by (induction rest arbitrary: xs) (simp_all add: mset_insert_pivot)

lemma run_tail_splits: "fst (run_tail cmp d previous xs) @ snd (run_tail cmp d previous xs) = xs"
  by (induction xs arbitrary: previous) simp_all

lemma run_tail_uniform:
  assumes "\<And>x y. order_negative cmp x y = (\<not> P y)"
  shows "\<forall>u \<in> set (butlast (previous # fst (run_tail cmp d previous xs))). P u = (\<not> d)"
proof (induction xs arbitrary: previous)
  case Nil
  show ?case by simp
next
  case (Cons current others)
  show ?case
  proof (cases "order_negative cmp current previous = d")
    case True
    then have "P previous = (\<not> d)" using assms by auto
    then show ?thesis using True Cons.IH [of current] by simp
  next
    case False
    then show ?thesis by simp
  qed
qed

lemma rev_last_first: "xs \<noteq> [] \<Longrightarrow> rev xs = last xs # rev (butlast xs)"
  by (induction xs rule: rev_induct) simp_all

lemma count_and_make_run_splits:
  "mset (fst (count_and_make_run cmp xs)) + mset (snd (count_and_make_run cmp xs)) = mset xs"
proof (cases xs)
  case Nil
  then show ?thesis by simp
next
  case (Cons high ys)
  show ?thesis
  proof (cases ys)
    case Nil
    then show ?thesis using Cons by simp
  next
    case (Cons low others)
    have "mset (fst (run_tail cmp d low others)) + mset (snd (run_tail cmp d low others))
          = mset others" for d
    proof -
      have "mset (fst (run_tail cmp d low others)) + mset (snd (run_tail cmp d low others))
            = mset (fst (run_tail cmp d low others) @ snd (run_tail cmp d low others))"
        by simp
      then show ?thesis by (simp only: run_tail_splits)
    qed
    then show ?thesis using \<open>xs = high # ys\<close> Cons by simp
  qed
qed

lemma count_and_make_run_nonempty:
  assumes "xs \<noteq> []"
  shows "fst (count_and_make_run cmp xs) \<noteq> []"
proof (cases xs)
  case Nil
  then show ?thesis using assms by simp
next
  case (Cons high ys)
  then show ?thesis by (cases ys) simp_all
qed

lemma count_and_make_run_grouped:
  assumes "\<And>x y. order_negative cmp x y = (\<not> P y)"
  shows "grouped P (fst (count_and_make_run cmp xs))"
proof (cases xs)
  case Nil
  then show ?thesis by (simp add: grouped_def)
next
  case (Cons high ys)
  note xs = this
  show ?thesis
  proof (cases ys)
    case Nil
    then show ?thesis using xs by (simp add: grouped_def)
  next
    case (Cons low others)
    note ys = this
    have one: "grouped P [u]" for u by (simp add: grouped_def)
    show ?thesis
    proof (cases "order_negative cmp low high")
      case True
      let ?run = "high # low # fst (run_tail cmp True low others)"
      have h: "\<not> P high" using True assms by simp
      have t: "\<forall>u \<in> set (butlast (low # fst (run_tail cmp True low others))). \<not> P u"
        using run_tail_uniform [OF assms, of low True others] by simp
      have all: "\<forall>u \<in> set (rev (butlast ?run)). \<not> P u" using h t by simp
      have "rev ?run = [] @ [last ?run] @ rev (butlast ?run)"
        using rev_last_first [of ?run] by simp
      moreover have "grouped P ([] @ [last ?run] @ rev (butlast ?run))"
        using one all by (intro grouped_sandwich) simp_all
      ultimately show ?thesis using xs ys True by simp
    next
      case False
      let ?run = "high # low # fst (run_tail cmp False low others)"
      have h: "P high" using False assms by simp
      have t: "\<forall>u \<in> set (butlast (low # fst (run_tail cmp False low others))). P u"
        using run_tail_uniform [OF assms, of low False others] by simp
      have all: "\<forall>u \<in> set (butlast ?run). P u" using h t by simp
      have "?run = butlast ?run @ [last ?run] @ []"
        using append_butlast_last_id [of ?run] by simp
      moreover have "grouped P (butlast ?run @ [last ?run] @ [])"
        using one all by (intro grouped_sandwich) simp_all
      ultimately show ?thesis using xs ys False by simp
    qed
  qed
qed

lemma next_run_grouped:
  assumes neg: "\<And>x y. order_negative cmp x y = (\<not> P y)" and "remaining \<noteq> []"
  shows "fst (next_run cmp minRunLength remaining) \<noteq> []
     \<and> grouped P (fst (next_run cmp minRunLength remaining))
     \<and> mset (fst (next_run cmp minRunLength remaining))
         + mset (snd (next_run cmp minRunLength remaining)) = mset remaining"
proof -
  obtain run others where c: "count_and_make_run cmp remaining = (run, others)"
    by fastforce
  have run: "run \<noteq> []" using count_and_make_run_nonempty [OF assms(2), of cmp] c by simp
  have g: "grouped P run" using count_and_make_run_grouped [OF neg, of remaining] c by simp
  have m: "mset run + mset others = mset remaining"
    using count_and_make_run_splits [of cmp remaining] c by simp
  show ?thesis
  proof (cases "length run < minRunLength")
    case False
    then show ?thesis using c run g m by (simp add: next_run_def)
  next
    case True
    let ?n = "min minRunLength (length remaining) - length run"
    let ?sorted = "binary_insertion_sort cmp run (take ?n others)"
    have n: "next_run cmp minRunLength remaining = (?sorted, drop ?n others)"
      using c True by (simp add: next_run_def)
    have ms: "mset ?sorted = mset run + mset (take ?n others)"
      by (rule mset_binary_insertion_sort)
    then have "?sorted \<noteq> []" using run by auto
    moreover have "grouped P ?sorted" using neg g by (rule binary_insertion_sort_grouped)
    moreover have "mset ?sorted + mset (drop ?n others) = mset remaining"
    proof -
      have "mset (take ?n others) + mset (drop ?n others) = mset (take ?n others @ drop ?n others)"
        by (simp only: mset_append)
      then have "mset (take ?n others) + mset (drop ?n others) = mset others"
        by (simp only: append_take_drop_id)
      then show ?thesis using ms m by (simp add: ac_simps)
    qed
    ultimately show ?thesis using n by simp
  qed
qed

lemma tim_sort_runs_keeps_groups:
  assumes neg: "\<And>x y. order_negative cmp x y = (\<not> P y)"
    and "\<forall>r \<in> set pending. r \<noteq> [] \<and> grouped P r"
  shows "\<exists>pending' mg'. tim_sort_runs cmp minRunLength mg pending remaining = Some (pending', mg')
           \<and> (\<forall>r \<in> set pending'. r \<noteq> [] \<and> grouped P r)
           \<and> mset (concat pending') = mset (concat pending) + mset remaining"
  using assms(2)
proof (induction "length remaining" arbitrary: remaining pending mg rule: less_induct)
  case less
  show ?case
  proof (cases "remaining = []")
    case True
    then show ?thesis using less.prems by (subst tim_sort_runs.simps) simp
  next
    case False
    let ?run = "fst (next_run cmp minRunLength remaining)"
    let ?rest = "snd (next_run cmp minRunLength remaining)"
    have n: "?run \<noteq> [] \<and> grouped P ?run" "mset ?run + mset ?rest = mset remaining"
      using next_run_grouped [OF neg False, of minRunLength] by simp_all
    have "\<forall>r \<in> set (?run # pending). r \<noteq> [] \<and> grouped P r"
      using n(1) less.prems by simp
    then obtain pending1 mg1 where
      c: "merge_collapse cmp mg (?run # pending) = Some (pending1, mg1)"
        "\<forall>r \<in> set pending1. r \<noteq> [] \<and> grouped P r"
        "mset (concat pending1) = mset (concat (?run # pending))"
      using merge_collapse_keeps_groups [OF neg, of "?run # pending" mg] by blast
    have "length ?rest < length remaining" using False by (rule length_next_run)
    then obtain pending' mg' where
      r: "tim_sort_runs cmp minRunLength mg1 pending1 ?rest = Some (pending', mg')"
        "\<forall>r \<in> set pending'. r \<noteq> [] \<and> grouped P r"
        "mset (concat pending') = mset (concat pending1) + mset ?rest"
      using less.hyps [OF _ c(2)] by blast
    have "mset (concat pending') = mset (concat pending) + mset remaining"
      using r(3) c(3) n(2) by (simp add: ac_simps)
    moreover have "tim_sort_runs cmp minRunLength mg pending remaining = Some (pending', mg')"
      using False c(1) r(1) by (subst tim_sort_runs.simps) simp
    ultimately show ?thesis using r(2) by blast
  qed
qed

lemma array_sort_grouped:
  assumes neg: "\<And>x y. order_negative cmp x y = (\<not> P y)"
  shows "\<exists>ys. array_sort cmp xs = Some ys \<and> grouped P ys \<and> mset ys = mset xs"
proof (cases "length xs < 2")
  case True
  then have "xs = [] \<or> (\<exists>x. xs = [x])"
    by (cases xs) (auto simp: length_Suc_conv)
  then show ?thesis using True by (auto simp: array_sort_def grouped_def)
next
  case False
  obtain pending mg where
    t: "tim_sort_runs cmp (compute_min_run_length 0 (length xs)) 7 [] xs = Some (pending, mg)"
      "\<forall>r \<in> set pending. r \<noteq> [] \<and> grouped P r"
      "mset (concat pending) = mset (concat []) + mset xs"
    using tim_sort_runs_keeps_groups [OF neg, of "[]" "compute_min_run_length 0 (length xs)" 7 xs]
    by auto
  obtain pending' mg' where
    f: "merge_force_collapse cmp mg pending = Some (pending', mg')"
      "length pending' \<le> 1"
      "\<forall>r \<in> set pending'. r \<noteq> [] \<and> grouped P r"
      "mset (concat pending') = mset (concat pending)"
    using merge_force_collapse_keeps_groups [OF neg t(2), of mg] by blast
  have "pending' = [] \<or> (\<exists>r. pending' = [r])"
    using f(2) by (cases pending') (auto simp: length_Suc_conv)
  then have "grouped P (concat (rev pending'))" and "concat (rev pending') = concat pending'"
    using f(3) by (auto simp: grouped_def)
  moreover have "array_sort cmp xs = Some (concat (rev pending'))"
    using False t(1) f(1) by (simp add: array_sort_def)
  ultimately show ?thesis using f(4) t(3) by simp
qed

text \<open>
  C7. Sorted by availability, the list shown is available first: every part with a
  store in stock stands before every part without one. The sort returns a list, and
  that list has the same parts as the filtered catalog.
\<close>

theorem availability_sort_available_first:
  "\<exists>ps. filteredAndSortedParts h (s\<lparr>sortBy := ByAvailability\<rparr>) = Some ps
     \<and> availableFirst ps
     \<and> mset ps
         = mset (filter (\<lambda>part. selectedType s = str ''all'' \<or> part_type part = Some (selectedType s))
                   (parts s))"
  using array_sort_grouped [OF availability_order,
      of h "filter (\<lambda>part. selectedType s = str ''all'' \<or> part_type part = Some (selectedType s))
              (parts s)"]
  by (simp add: filteredAndSortedParts_def availableFirst_def grouped_def)

theorem availability_sort_available_first_witness:
  "filteredAndSortedParts demoHost shelf = Some [ryzen, partWith [amazon]]
   \<and> availableFirst [ryzen, partWith [amazon]]"
proof -
  have a: "\<not> available (partWith [amazon])" "available ryzen"
    by (simp_all add: available_def partWith_def amazon_def ryzen_def newegg_def)
  have o: "order_negative (compareParts demoHost ByAvailability) ryzen (partWith [amazon])"
    using a availability_order by simp
  have e: "filteredAndSortedParts demoHost shelf = Some [ryzen, partWith [amazon]]"
    using o by (simp add: filteredAndSortedParts_def shelf_def demoState_def array_sort_def
        compute_min_run_length.simps tim_sort_runs.simps next_run_def)
  have s: "shelf\<lparr>sortBy := ByAvailability\<rparr> = shelf"
    by (simp add: shelf_def)
  obtain ps where "filteredAndSortedParts demoHost shelf = Some ps" and "availableFirst ps"
    using availability_sort_available_first [of demoHost shelf] s by auto
  then show ?thesis using e by simp
qed

section \<open>At least one store per part (C8)\<close>

text \<open>
  What the handlers do keep: when the saved builds read at the start satisfy the
  invariant and every Add Store click reads a clock value that is new among the ids of
  the form, every state reached is well formed, so every Part of the catalog has a
  Store. A submission that fails validation changes nothing, and one that passes adds
  one Part, with as many stores as the form has rows.
\<close>

lemma filter_unique_keeps_some:
  assumes "distinct (map f xs)" and "1 < length xs"
  shows "filter (\<lambda>x. f x \<noteq> v) xs \<noteq> []"
proof -
  obtain a b rest where xs: "xs = a # b # rest"
    using assms(2) by (cases xs; cases "tl xs") auto
  then have "f a \<noteq> f b" using assms(1) by simp
  then have "f a \<noteq> v \<or> f b \<noteq> v" by auto
  then show ?thesis using xs by auto
qed

lemma setField_id: "store_id (setField fv store) = store_id store"
  by (cases fv) simp_all

lemma part_stores_map:
  "everyPartHasStore ps \<Longrightarrow>
   everyPartHasStore
     (map (\<lambda>part. if c part then part\<lparr>stores := map (g part) (stores part)\<rparr> else part) ps)"
  by (induction ps) (auto simp: everyPartHasStore_def)

lemma part_stores_map_checked:
  "everyPartHasStore ps \<Longrightarrow>
   everyPartHasStore
     (map (\<lambda>part. if c part
                   then part\<lparr>lastChecked := d, stores := map (g part) (stores part)\<rparr>
                   else part) ps)"
  by (induction ps) (auto simp: everyPartHasStore_def)

lemma dispatch_wellFormed:
  assumes "wellFormed s"
    and "a \<noteq> AddStore \<or> now h \<notin> set (map store_id (storesOrEmpty (newPart s)))"
  shows "wellFormed (dispatch h a s)"
proof (cases a)
  case SaveBuild
  then show ?thesis using assms(1)
    by (simp add: wellFormed_def handleSaveBuild_def buildsOk_def)
next
  case (LoadBuild i)
  then show ?thesis using assms(1)
    by (auto simp: wellFormed_def handleLoadBuild_def buildsOk_def list_all_length)
next
  case (DeleteBuild i)
  then show ?thesis using assms(1)
    by (auto simp: wellFormed_def handleDeleteBuild_def buildsOk_def list_all_iff)
next
  case (ChangeBuildName v)
  then show ?thesis using assms(1) by (simp add: wellFormed_def)
next
  case AddStore
  then show ?thesis using assms
    by (auto simp: wellFormed_def handleAddStore_def formOk_def storesOrEmpty_def blankStore_def)
next
  case (RemoveStore i)
  show ?thesis
  proof (cases "length (storesOrEmpty (newPart s)) \<le> 1")
    case True
    then show ?thesis using assms(1) RemoveStore by (simp add: handleRemoveStore_def)
  next
    case False
    then have "filter (\<lambda>store. store_id store \<noteq> i) (storesOrEmpty (newPart s)) \<noteq> []"
      using assms(1) filter_unique_keeps_some [of store_id "storesOrEmpty (newPart s)" i]
      by (simp add: wellFormed_def formOk_def)
    then show ?thesis using assms(1) False RemoveStore
      by (simp add: wellFormed_def handleRemoveStore_def formOk_def storesOrEmpty_def
          distinct_map_filter)
  qed
next
  case (StoreChange i fv)
  have "store_id \<circ> (\<lambda>store. if store_id store = i then setField fv store else store)
        = store_id"
    by (rule ext) (simp add: setField_id)
  then show ?thesis using assms(1) StoreChange
    by (simp add: wellFormed_def handleStoreChange_def formOk_def storesOrEmpty_def)
next
  case (ChangePartName v)
  then show ?thesis using assms(1) by (simp add: wellFormed_def formOk_def storesOrEmpty_def)
next
  case (ChangePartType v)
  then show ?thesis using assms(1) by (simp add: wellFormed_def formOk_def storesOrEmpty_def)
next
  case AddPart
  then show ?thesis using assms(1)
    by (auto simp: wellFormed_def handleAddPart_def formOk_def storesOrEmpty_def blankForm_def
        blankStore_def everyPartHasStore_def split: option.splits)
next
  case (DeletePart i)
  then show ?thesis using assms(1)
    by (auto simp: wellFormed_def handleDeletePart_def everyPartHasStore_def list_all_iff)
next
  case (PriceInputChange pid sid v)
  then show ?thesis using assms(1) part_stores_map
    by (simp add: wellFormed_def handlePriceInputChange_def)
next
  case (PriceUpdate pid sid v)
  then show ?thesis using assms(1) part_stores_map_checked
    by (simp add: wellFormed_def handlePriceUpdate_def)
next
  case (ToggleStock pid sid)
  then show ?thesis using assms(1) part_stores_map_checked
    by (simp add: wellFormed_def toggleStock_def)
next
  case (SetPriceAlert pid sid v)
  then show ?thesis using assms(1) part_stores_map
    by (simp add: wellFormed_def setPriceAlert_def)
qed

lemma run_wellFormed:
  "wellFormed s \<Longrightarrow> freshClicks es s \<Longrightarrow> wellFormed (run es s)"
proof (induction es arbitrary: s)
  case Nil
  then show ?case by simp
next
  case (Cons e es)
  have "wellFormed (dispatch (fst e) (snd e) s)"
    using Cons.prems by (intro dispatch_wellFormed) simp_all
  then show ?case using Cons.IH Cons.prems(2) by simp
qed

lemma initial_wellFormed:
  "buildsOk (savedBuilds (initialState h dark stored)) \<Longrightarrow> wellFormed (initialState h dark stored)"
  by (simp add: wellFormed_def initialState_def everyPartHasStore_def formOk_def blankForm_def
      storesOrEmpty_def blankStore_def)

lemma every_part_keeps_a_store:
  assumes "buildsOk (savedBuilds (initialState h dark stored))"
    and "freshClicks es (initialState h dark stored)"
  shows "everyPartHasStore (parts (run es (initialState h dark stored)))"
  using run_wellFormed [OF initial_wellFormed [OF assms(1)] assms(2)]
  by (simp add: wellFormed_def)

lemma invalid_submission_changes_nothing:
  "\<not> formValid (newPart s) \<Longrightarrow> handleAddPart h s = s"
  by (auto simp: formValid_def handleAddPart_def split: option.splits)

lemma valid_submission_adds_stores_of_form:
  assumes "formValid (newPart s)"
  shows "length (parts (handleAddPart h s)) = Suc (length (parts s))
         \<and> butlast (parts (handleAddPart h s)) = parts s
         \<and> length (stores (last (parts (handleAddPart h s)))) = length (storesOrEmpty (newPart s))"
  using assms
  by (auto simp: formValid_def handleAddPart_def storesOrEmpty_def split: option.splits)

text \<open>
  C8 fails on the code when two rows of the form share an id. After the six actions of
  \<open>clashingClicks\<close>, which all read one clock value, removing a row by its id has
  removed both rows that carry it (the guard of \<^verbatim>\<open>handleRemoveStore\<close> saw two rows), the
  form holds no store, its validation passes because \<^verbatim>\<open>every\<close> holds of the empty list,
  and the catalog holds a Part without a Store.
\<close>

theorem storeless_part_reachable:
  "map (\<lambda>e. now (fst e)) clashingClicks = replicate 6 (str ''1704153601000'')
   \<and> np_stores (newPart (run (take 4 clashingClicks) (initialState demoHost False None))) = Some []
   \<and> formValid (newPart (run (take 5 clashingClicks) (initialState demoHost False None)))
   \<and> map part_name (parts (run clashingClicks (initialState demoHost False None)))
       = [str ''GPU bracket'']
   \<and> map stores (parts (run clashingClicks (initialState demoHost False None))) = [[]]
   \<and> \<not> everyPartHasStore (parts (run clashingClicks (initialState demoHost False None)))"
  by (simp add: clashingClicks_def laterHost_def demoHost_def initialState_def blankForm_def
      blankStore_def handleAddStore_def handleRemoveStore_def handleAddPart_def storesOrEmpty_def
      formValid_def everyPartHasStore_def str_def numeral_eq_Suc)

section \<open>Total build cost (C9, C10)\<close>

lemma show_nat_digits: "\<forall>c \<in> set (show_nat n). is_digit c"
proof (induction n rule: show_nat.induct)
  case (1 n)
  show ?case
  proof (cases "n < 10")
    case True
    then show ?thesis by (subst show_nat.simps) (simp add: is_digit_def)
  next
    case False
    have "n mod 10 < 10" by simp
    then have "is_digit (48 + n mod 10)" by (simp add: is_digit_def)
    then show ?thesis using False 1 by (subst show_nat.simps) simp
  qed
qed

lemma digits_value_snoc:
  "digits_value acc (cs @ [c]) = 10 * digits_value acc cs + (c - 48)"
  by (induction cs arbitrary: acc) simp_all

lemma digits_value_show_nat: "digits_value 0 (show_nat n) = n"
proof (induction n rule: show_nat.induct)
  case (1 n)
  show ?case
  proof (cases "n < 10")
    case True
    then show ?thesis by (subst show_nat.simps) simp
  next
    case False
    then have "digits_value 0 (show_nat (n div 10)) = n div 10" using 1 by simp
    then show ?thesis using False
      by (subst show_nat.simps) (simp add: digits_value_snoc)
  qed
qed

lemma show_nat_head:
  "\<exists>c cs. show_nat n = c # cs \<and> is_digit c"
  using show_nat_nonempty [of n] show_nat_digits [of n]
  by (cases "show_nat n") auto

lemma parse_unsigned_fixed:
  assumes "d1 < 10" and "d0 < 10"
  shows "parse_unsigned neg (show_nat a @ [46, 48 + d1, 48 + d0])
         = decimal_value neg (a * 100 + d1 * 10 + d0) (- 2)"
proof -
  obtain c cs where h: "show_nat a = c # cs" "is_digit c"
    using show_nat_head by blast
  have inf: "take 8 (show_nat a @ [46, 48 + d1, 48 + d0]) \<noteq> str ''Infinity''"
    using h by (auto simp: str_def is_digit_def)
  have tw: "takeWhile is_digit (show_nat a @ [46, 48 + d1, 48 + d0]) = show_nat a"
    using show_nat_digits [of a] by (simp add: takeWhile_append2 is_digit_def)
  have dw: "dropWhile is_digit (show_nat a @ [46, 48 + d1, 48 + d0]) = [46, 48 + d1, 48 + d0]"
    using show_nat_digits [of a] by (simp add: dropWhile_append2 is_digit_def)
  have fr: "takeWhile is_digit [48 + d1, 48 + d0] = [48 + d1, 48 + d0]"
    "dropWhile is_digit [48 + d1, 48 + d0] = []"
    using assms by (simp_all add: is_digit_def)
  have v: "digits_value 0 (show_nat a @ [48 + d1, 48 + d0]) = a * 100 + d1 * 10 + d0"
    using digits_value_snoc [of 0 "show_nat a @ [48 + d1]" "48 + d0"]
      digits_value_snoc [of 0 "show_nat a" "48 + d1"]
    by (simp add: digits_value_show_nat)
  have ne: "show_nat a \<noteq> []" by (rule show_nat_nonempty)
  have "parse_unsigned neg (show_nat a @ [46, 48 + d1, 48 + d0])
        = parse_mantissa neg (show_nat a) [46, 48 + d1, 48 + d0]"
    using inf by (simp only: parse_unsigned_def tw dw if_False)
  also have "\<dots> = parse_fraction neg (show_nat a) (takeWhile is_digit [48 + d1, 48 + d0])
                       (dropWhile is_digit [48 + d1, 48 + d0])"
    by (simp only: parse_mantissa_def list.case refl if_True)
  also have "\<dots> = parse_fraction neg (show_nat a) [48 + d1, 48 + d0] []"
    by (simp only: fr)
  also have "\<dots> = decimal_value neg (digits_value 0 (show_nat a @ [48 + d1, 48 + d0]))
                       (exponent_of [] - int (length [48 + d1, 48 + d0]))"
    using ne by (simp only: parse_fraction_def if_False simp_thms)
  also have "\<dots> = decimal_value neg (a * 100 + d1 * 10 + d0) (- 2)"
    by (simp only: v) (simp add: exponent_of_def)
  finally show ?thesis .
qed

lemma three_digits: "(n::nat) div 100 * 100 + n div 10 mod 10 * 10 + n mod 10 = n"
proof -
  have a: "n div 10 div 10 = n div 100" by (simp add: div_mult2_eq)
  have b: "n div 10 = n div 10 div 10 * 10 + n div 10 mod 10" by simp
  have c: "n = n div 10 * 10 + n mod 10" by simp
  show ?thesis using a b c by linarith
qed

lemma parseFloat_twoDecimals: "parseFloat (twoDecimals q) = roundCents q"
proof -
  let ?t = "show_nat (cents q div 100) @ [46, 48 + cents q div 10 mod 10, 48 + cents q mod 10]"
  obtain c cs where h: "show_nat (cents q div 100) = c # cs" "is_digit c"
    using show_nat_head by blast
  have pu: "\<And>neg. parse_unsigned neg ?t = decimal_value neg (cents q) (- 2)"
    using parse_unsigned_fixed [of "cents q div 10 mod 10" "cents q mod 10" _ "cents q div 100"]
    by (simp add: three_digits)
  show ?thesis
  proof (cases "q < 0")
    case True
    then have "twoDecimals q = 45 # ?t" by (simp add: twoDecimals_def)
    then have "parseFloat (twoDecimals q) = parse_unsigned True ?t"
      by (simp add: parseFloat_def is_white_def parse_signed_def)
    then show ?thesis using True
      by (simp add: pu decimal_value_def roundCents_def pow10_def)
  next
    case False
    then have t: "twoDecimals q = ?t" by (simp add: twoDecimals_def)
    have "parseFloat ?t = parse_unsigned False ?t"
    proof -
      have nw: "\<not> is_white c" using h(2) by (auto simp: is_white_def is_digit_def)
      have "c \<noteq> 45" "c \<noteq> 43" using h(2) by (auto simp: is_digit_def)
      then show ?thesis using nw h(1) by (simp add: parseFloat_def parse_signed_def)
    qed
    then show ?thesis using False
      by (simp add: t pu decimal_value_def roundCents_def pow10_def)
  qed
qed

lemma bestPriceNumber_shown:
  assumes "pricesFinite part"
  shows "bestPriceNumber part = shownValue (lowestPrice part)"
proof -
  have "getBestPrice (stores part) = 36 # toFixed 2 (Fin (lowestPrice part))"
    using assms getBestPrice_lowest [of "stores part"]
    by (simp add: pricesFinite_def lowestPrice_def)
  then show ?thesis
    by (simp add: bestPriceNumber_def replace_dollar_def shownValue_def)
qed

lemma foldl_cong_list:
  "\<forall>x \<in> set xs. f x = g x \<Longrightarrow> foldl (\<lambda>a x. k a (f x)) a xs = foldl (\<lambda>a x. k a (g x)) a xs"
  by (induction xs arbitrary: a) simp_all

lemma shownValue_rounds:
  "\<bar>q\<bar> < 10 ^ 21 \<Longrightarrow> shownValue q = roundCents q"
  by (simp add: shownValue_def toFixed_two_decimals parseFloat_twoDecimals)

text \<open>
  C9, as amended. For a catalog in which every Part has a store and every store price
  parses to a finite number, \<open>getTotalBuildCost\<close> is the sum, added up in binary64 from
  0 in catalog order, of the Numbers read back from the best prices as displayed; when
  every minimum is below \<open>10 ^ 21\<close> in magnitude, that is the sum of the minimum prices
  each rounded to two decimals, not of the minimum prices themselves. For the catalog
  of one Part priced \<^verbatim>\<open>$449.99\<close> and \<^verbatim>\<open>$459.99\<close> the total is 449.99.
\<close>

theorem total_is_sum_of_shown_prices:
  assumes "list_all pricesFinite ps"
  shows "getTotalBuildCost ps
           = foldl js_add (Fin 0) (map (\<lambda>part. shownValue (lowestPrice part)) ps)
         \<and> (list_all (\<lambda>part. \<bar>lowestPrice part\<bar> < 10 ^ 21) ps \<longrightarrow>
              getTotalBuildCost ps
                = foldl js_add (Fin 0) (map (\<lambda>part. roundCents (lowestPrice part)) ps))"
proof -
  have a: "\<forall>part \<in> set ps. bestPriceNumber part = shownValue (lowestPrice part)"
    using assms bestPriceNumber_shown by (simp add: list_all_iff)
  have t: "getTotalBuildCost ps
           = foldl (\<lambda>total part. js_add total (shownValue (lowestPrice part))) (Fin 0) ps"
    unfolding getTotalBuildCost_def using foldl_cong_list [OF a] .
  have first: "getTotalBuildCost ps
           = foldl js_add (Fin 0) (map (\<lambda>part. shownValue (lowestPrice part)) ps)"
    by (simp add: t foldl_map)
  have second: "getTotalBuildCost ps
                = foldl js_add (Fin 0) (map (\<lambda>part. roundCents (lowestPrice part)) ps)"
    if b: "list_all (\<lambda>part. \<bar>lowestPrice part\<bar> < 10 ^ 21) ps"
  proof -
    have "\<forall>part \<in> set ps. shownValue (lowestPrice part) = roundCents (lowestPrice part)"
      using b shownValue_rounds by (simp add: list_all_iff)
    then have "foldl (\<lambda>total part. js_add total (shownValue (lowestPrice part))) (Fin 0) ps
          = foldl (\<lambda>total part. js_add total (roundCents (lowestPrice part))) (Fin 0) ps"
      by (rule foldl_cong_list)
    then show ?thesis by (simp add: t foldl_map)
  qed
  show ?thesis using first second by simp
qed

theorem total_is_sum_of_shown_prices_witness:
  "getTotalBuildCost [ryzen] = Fin (1979076949531689 / 4398046511104)"
proof -
  have f: "list_all pricesFinite [ryzen]"
    by (simp add: pricesFinite_def ryzen_def price_newegg price_amazon isFinite_def)
  have l: "lowestPrice ryzen = 1979076949531689 / 4398046511104"
    using lowest_ryzen by (simp add: lowestPrice_def ryzen_def)
  have s: "shownValue (1979076949531689 / 4398046511104) = Fin (1979076949531689 / 4398046511104)"
    by (simp add: shownValue_def shown_newegg parse_shown_newegg)
  show ?thesis
    using total_is_sum_of_shown_prices [OF f] l s add_zero_newegg by simp
qed

text \<open>
  The claim as first stated fails on a price with more than two decimals: for the one
  Part priced \<^verbatim>\<open>$1.999\<close> the minimum parsed price is 1.999, and so is the sum of the
  minimum prices, but the total returned is 2.
\<close>

lemma price_cheap:
  "priceNumber (pricedStore (str ''$1.999'')) = Fin (4501347827556811 / 2251799813685248)"
  by (simp add: priceNumber_def pricedStore_def replace_dollar_def parse_eval num_eval)

lemma shown_cheap: "toFixed 2 (Fin (4501347827556811 / 2251799813685248)) = str ''2.00''"
  by (simp add: fixed_eval)

lemma parse_two: "parseFloat (str ''2.00'') = Fin 2"
  by (simp add: parse_eval num_eval)

lemma add_zero_two: "js_add (Fin 0) (Fin 2) = Fin 2"
  by (simp add: js_add_def num_eval)

lemma add_zero_cheap:
  "js_add (Fin 0) (Fin (4501347827556811 / 2251799813685248))
   = Fin (4501347827556811 / 2251799813685248)"
  by (simp add: js_add_def num_eval)

theorem total_counterexample:
  "list_all pricesFinite [partWith [pricedStore (str ''$1.999'')]]
   \<and> sumOfLowest [partWith [pricedStore (str ''$1.999'')]]
       = Fin (4501347827556811 / 2251799813685248)
   \<and> getTotalBuildCost [partWith [pricedStore (str ''$1.999'')]] = Fin 2
   \<and> getTotalBuildCost [partWith [pricedStore (str ''$1.999'')]]
       \<noteq> sumOfLowest [partWith [pricedStore (str ''$1.999'')]]"
proof -
  have best: "getBestPrice [pricedStore (str ''$1.999'')] = 36 # str ''2.00''"
    using price_cheap shown_cheap by (simp add: getBestPrice_def Math_min_def js_lt_def)
  have "bestPriceNumber (partWith [pricedStore (str ''$1.999'')]) = Fin 2"
    using best parse_two by (simp add: bestPriceNumber_def partWith_def replace_dollar_def)
  then have t: "getTotalBuildCost [partWith [pricedStore (str ''$1.999'')]] = Fin 2"
    using add_zero_two by (simp add: getTotalBuildCost_def)
  have m: "Math_min (map priceNumber [pricedStore (str ''$1.999'')])
           = Fin (4501347827556811 / 2251799813685248)"
    using price_cheap by (simp add: Math_min_def js_lt_def)
  have s: "sumOfLowest [partWith [pricedStore (str ''$1.999'')]]
           = Fin (4501347827556811 / 2251799813685248)"
    using m add_zero_cheap by (simp add: sumOfLowest_def partWith_def)
  have f: "list_all pricesFinite [partWith [pricedStore (str ''$1.999'')]]"
    using price_cheap by (simp add: pricesFinite_def partWith_def isFinite_def)
  show ?thesis
    using t s f by simp
qed

lemma parseFloat_Infinity: "parseFloat (str ''Infinity'') = Infinity"
  by (simp add: parse_eval)

lemma getBestPrice_no_stores: "getBestPrice [] = str ''$Infinity''"
  by (simp add: getBestPrice_def Math_min_def toFixed_def str_def)

lemma bestPriceNumber_no_stores: "stores part = [] \<Longrightarrow> bestPriceNumber part = Infinity"
  using parseFloat_Infinity
  by (simp add: bestPriceNumber_def getBestPrice_def Math_min_def toFixed_def replace_dollar_def
      str_def)

lemma js_add_nonFinite_left: "nonFinite a \<Longrightarrow> nonFinite (js_add a y)"
  by (auto simp: nonFinite_def js_add_def split: jsnum.splits)

lemma js_add_Infinity_right: "nonFinite (js_add a Infinity)"
  by (auto simp: nonFinite_def js_add_def split: jsnum.splits)

lemma foldl_nonFinite:
  "nonFinite a \<Longrightarrow> nonFinite (foldl (\<lambda>total part. js_add total (f part)) a ps)"
  by (induction ps arbitrary: a) (simp_all add: js_add_nonFinite_left)

lemma foldl_reaches_nonFinite:
  assumes "part \<in> set ps" and "f part = Infinity"
  shows "nonFinite (foldl (\<lambda>total part. js_add total (f part)) a ps)"
  using assms
proof (induction ps arbitrary: a)
  case Nil
  then show ?case by simp
next
  case (Cons p ps)
  show ?case
  proof (cases "p = part")
    case True
    then have "nonFinite (js_add a (f p))"
      using Cons.prems(2) js_add_Infinity_right by simp
    then show ?thesis using foldl_nonFinite by simp
  next
    case False
    then have "part \<in> set ps" using Cons.prems(1) by simp
    then show ?thesis using Cons.IH Cons.prems(2) by simp
  qed
qed

lemma ties_even_nonneg: "0 \<le> x \<Longrightarrow> 0 \<le> round_half_even x"
proof -
  assume "0 \<le> x"
  then have "0 \<le> \<lfloor>x\<rfloor>" by simp
  then show ?thesis by (simp add: round_half_even_def ties_even_def)
qed

lemma pow2_positive: "0 < pow2 e"
  by (simp add: pow2_def)

lemma round_double_nonneg: "0 \<le> q \<Longrightarrow> notBelowZero (round_double q)"
proof -
  assume q: "0 \<le> q"
  show ?thesis
  proof (cases "q = 0")
    case True
    then show ?thesis by (simp add: round_double_def notBelowZero_def)
  next
    case False
    let ?u = "pow2 (max (floor_log2 \<bar>q\<bar>) (- 1022) - 52)"
    have u: "0 < ?u" by (rule pow2_positive)
    have "0 \<le> \<bar>q\<bar> / ?u" using u by simp
    then have "0 \<le> round_half_even (\<bar>q\<bar> / ?u)" by (rule ties_even_nonneg)
    then have "0 \<le> rat_of_int (round_half_even (\<bar>q\<bar> / ?u)) * ?u"
      using u by simp
    moreover have "\<not> q < 0" using q by simp
    ultimately show ?thesis using False
      by (simp add: round_double_def round_scaled_def overflow_check_def notBelowZero_def)
  qed
qed

lemma js_add_notBelowZero:
  assumes "notBelowZero a" and "notBelowZero b"
  shows "notBelowZero (js_add a b)"
proof (cases a)
  case NaN
  then show ?thesis using assms(1) by (simp add: notBelowZero_def)
next
  case NegInfinity
  then show ?thesis using assms(1) by (simp add: notBelowZero_def)
next
  case Infinity
  then show ?thesis using assms(2)
    by (cases b) (simp_all add: notBelowZero_def js_add_def)
next
  case (Fin x)
  note a = this
  show ?thesis
  proof (cases b)
    case NaN
    then show ?thesis using assms(2) by (simp add: notBelowZero_def)
  next
    case NegInfinity
    then show ?thesis using assms(2) by (simp add: notBelowZero_def)
  next
    case Infinity
    then show ?thesis using a by (simp add: notBelowZero_def js_add_def)
  next
    case (Fin y)
    have "0 \<le> x + y"
      using assms a Fin by (simp add: notBelowZero_def)
    then have "notBelowZero (round_double (x + y))" by (rule round_double_nonneg)
    then show ?thesis using a Fin by (simp add: js_add_def)
  qed
qed

lemma foldl_notBelowZero:
  assumes "notBelowZero a" and "list_all (\<lambda>part. notBelowZero (f part)) ps"
  shows "notBelowZero (foldl (\<lambda>total part. js_add total (f part)) a ps)"
  using assms
  by (induction ps arbitrary: a) (simp_all add: js_add_notBelowZero)

text \<open>
  C10, as amended. For a Part without stores \<open>getBestPrice\<close> returns \<^verbatim>\<open>$Infinity\<close>, and
  the total of any catalog that contains such a Part is not finite: it is \<open>Infinity\<close>
  or NaN, and it is \<open>Infinity\<close> whenever the best price of every Part reads back as a
  number that is not below zero. Both functions are total: nothing is raised.
\<close>

theorem total_with_storeless_part:
  assumes "part \<in> set ps" and "stores part = []"
  shows "getBestPrice (stores part) = str ''$Infinity''
         \<and> (getTotalBuildCost ps = Infinity \<or> getTotalBuildCost ps = NaN)
         \<and> (list_all (\<lambda>other. notBelowZero (bestPriceNumber other)) ps
              \<longrightarrow> getTotalBuildCost ps = Infinity)"
proof -
  have a: "getBestPrice (stores part) = str ''$Infinity''"
    using assms(2) getBestPrice_no_stores by simp
  have inf: "bestPriceNumber part = Infinity"
    using assms(2) by (rule bestPriceNumber_no_stores)
  have b: "nonFinite (getTotalBuildCost ps)"
    unfolding getTotalBuildCost_def using assms(1) inf by (rule foldl_reaches_nonFinite)
  have c: "getTotalBuildCost ps = Infinity"
    if n: "list_all (\<lambda>other. notBelowZero (bestPriceNumber other)) ps"
  proof -
    have "notBelowZero (Fin 0)" by (simp add: notBelowZero_def)
    then have "notBelowZero (getTotalBuildCost ps)"
      unfolding getTotalBuildCost_def using n by (rule foldl_notBelowZero)
    then show ?thesis using b by (auto simp: nonFinite_def notBelowZero_def)
  qed
  show ?thesis using a b c by (simp add: nonFinite_def)
qed

theorem total_with_storeless_part_witness:
  "getBestPrice (stores (partWith [])) = str ''$Infinity''
   \<and> getTotalBuildCost [ryzen, partWith []] = Infinity"
proof -
  have a: "partWith [] \<in> set [ryzen, partWith []]" by simp
  have b: "stores (partWith []) = []" by (simp add: partWith_def)
  have inf: "bestPriceNumber (partWith []) = Infinity"
    using b by (rule bestPriceNumber_no_stores)
  have "getBestPrice (stores ryzen) = 36 # str ''449.99''"
    using best_price_ryzen by (simp add: ryzen_def str_def)
  then have r: "bestPriceNumber ryzen = Fin (1979076949531689 / 4398046511104)"
    using parse_shown_newegg by (simp add: bestPriceNumber_def replace_dollar_def)
  have n: "list_all (\<lambda>other. notBelowZero (bestPriceNumber other)) [ryzen, partWith []]"
    using inf r by (simp add: notBelowZero_def)
  show ?thesis
    using total_with_storeless_part [OF a b] n by simp
qed

text \<open>
  The claim as first stated fails when another Part has a price that does not parse:
  with a Part without stores and a Part priced \<^verbatim>\<open>n/a\<close> the total is NaN, not
  \<open>Infinity\<close>.
\<close>

lemma parse_na: "priceNumber (pricedStore (str ''n/a'')) = NaN"
  by (simp add: priceNumber_def pricedStore_def replace_dollar_def parse_eval)

lemma shown_NaN: "toFixed 2 NaN = str ''NaN''"
  by (simp add: toFixed_def)

lemma parse_NaN: "parseFloat (str ''NaN'') = NaN"
  by (simp add: parse_eval)

theorem storeless_total_counterexample:
  "stores (partWith []) = []
   \<and> getTotalBuildCost [partWith [], partWith [pricedStore (str ''n/a'')]] = NaN
   \<and> getTotalBuildCost [partWith [], partWith [pricedStore (str ''n/a'')]] \<noteq> Infinity"
proof -
  have a: "bestPriceNumber (partWith []) = Infinity"
    by (rule bestPriceNumber_no_stores) (simp add: partWith_def)
  have "getBestPrice [pricedStore (str ''n/a'')] = 36 # str ''NaN''"
    using parse_na shown_NaN by (simp add: getBestPrice_def Math_min_def)
  then have b: "bestPriceNumber (partWith [pricedStore (str ''n/a'')]) = NaN"
    using parse_NaN by (simp add: bestPriceNumber_def partWith_def replace_dollar_def)
  show ?thesis
    using a b by (simp add: getTotalBuildCost_def js_add_def partWith_def)
qed

end
